theory Spec2Isabelle
  imports Main "HOL-Library.Multiset" "HOL-Library.Product_Lexorder"
begin

section \<open>The Workday event collector: paging, normalisation, boundary deduplication\<close>

text \<open>
  The development embeds \<^verbatim>\<open>WorkdayEventCollector.py\<close>: the paging loop
  \<^verbatim>\<open>get_max_fetch_activity_logging\<close>, the timestamp normalisation
  \<^verbatim>\<open>remove_milliseconds_from_time_of_loggings\<close>, the boundary pass
  \<^verbatim>\<open>remove_duplicated_activity_logging\<close> and their composition
  \<^verbatim>\<open>fetch_activity_logging\<close>. Exceptions are values of type \<open>error\<close>;
  a function that can raise returns \<open>error + 'a\<close>.
\<close>

datatype error = ValueError | TypeError | RequestError

subsection \<open>Python's \<open>datetime.strptime\<close> and \<open>datetime.strftime\<close>\<close>

text \<open>
  The collector compares and rewrites timestamps through the standard library. A naive
  \<open>datetime\<close> is the record of its seven fields. A format string is the list of its
  directives: \<^verbatim>\<open>%Y %m %d %H %M %S %f\<close> and literal characters. Strings are byte
  strings here, so only ASCII digits count as digits.

  \<open>strptime\<close> compiles the format into a regular expression, one group per directive,
  matched case-insensitively from the start of the string by a backtracking engine;
  \<open>directive_regex\<close> lists, for each directive, the alternatives of its group in the
  order the engine tries them, each alternative a sequence of character classes:
  \<^verbatim>\<open>
  %Y  \d\d\d\d                                %H  2[0-3]|[0-1]\d|\d
  %m  1[0-2]|0[1-9]|[1-9]                     %M  [0-5]\d|\d
  %d  3[0-1]|[1-2]\d|0[1-9]|[1-9]| [1-9]      %S  6[0-1]|[0-5]\d|\d
  %f  [0-9]{1,6}   (greedy: six digits first, then fewer)
  \<close>
\<close>

record datetime =
  year :: nat
  month :: nat
  day :: nat
  hour :: nat
  minute :: nat
  second :: nat
  microsecond :: nat

datatype directive = Dir_Y | Dir_m | Dir_d | Dir_H | Dir_M | Dir_S | Dir_f | Lit char

definition d09 :: string where
  "d09 = ''0123456789''"

definition d19 :: string where
  "d19 = ''123456789''"

fun directive_regex :: "directive \<Rightarrow> string list list" where
  "directive_regex Dir_Y = [[d09, d09, d09, d09]]"
| "directive_regex Dir_m = [[''1'', ''012''], [''0'', d19], [d19]]"
| "directive_regex Dir_d = [[''3'', ''01''], [''12'', d09], [''0'', d19], [d19], ['' '', d19]]"
| "directive_regex Dir_H = [[''2'', ''0123''], [''01'', d09], [d09]]"
| "directive_regex Dir_M = [[''012345'', d09], [d09]]"
| "directive_regex Dir_S = [[''6'', ''01''], [''012345'', d09], [d09]]"
| "directive_regex Dir_f = [[d09, d09, d09, d09, d09, d09], [d09, d09, d09, d09, d09],
     [d09, d09, d09, d09], [d09, d09, d09], [d09, d09], [d09]]"
| "directive_regex (Lit c) = [[[c]]]"

text \<open>One alternative against the head of the input: the text it matched and the rest.\<close>

fun match_seq :: "string list \<Rightarrow> string \<Rightarrow> (string \<times> string) option" where
  "match_seq [] s = Some ([], s)"
| "match_seq (cls # clss) [] = None"
| "match_seq (cls # clss) (x # xs) =
     (if x \<in> set cls
      then (case match_seq clss xs of None \<Rightarrow> None | Some (m, r) \<Rightarrow> Some (x # m, r))
      else None)"

definition alternatives :: "directive \<Rightarrow> string \<Rightarrow> (string \<times> string) list" where
  "alternatives d s = List.map_filter (\<lambda>alt. match_seq alt s) (directive_regex d)"

definition lower :: "char \<Rightarrow> char" where
  "lower c = (case map_of (zip ''ABCDEFGHIJKLMNOPQRSTUVWXYZ'' ''abcdefghijklmnopqrstuvwxyz'') c of
     None \<Rightarrow> c | Some l \<Rightarrow> l)"

text \<open>
  All the ways the format matches a prefix of the input, in the order the backtracking
  engine finds them: the groups' texts and the unmatched rest. The engine reports the
  first.
\<close>

fun regex_match :: "directive list \<Rightarrow> string \<Rightarrow> ((directive \<times> string) list \<times> string) list" where
  "regex_match [] s = [([], s)]"
| "regex_match (Lit c # ds) s =
     (case s of [] \<Rightarrow> [] | x # xs \<Rightarrow> if lower x = lower c then regex_match ds xs else [])"
| "regex_match (d # ds) s =
     concat (map (\<lambda>(m, rest). map (\<lambda>(g, r). ((d, m) # g, r)) (regex_match ds rest))
       (alternatives d s))"

definition digit_val :: "char \<Rightarrow> nat" where
  "digit_val c = (case map_of (zip ''0123456789'' [0, 1, 2, 3, 4, 5, 6, 7, 8, 9]) c of
     None \<Rightarrow> 0 | Some v \<Rightarrow> v)"

text \<open>Python's \<open>int\<close> on a group's text: leading blanks are skipped (the last alternative of \<^verbatim>\<open>%d\<close>).\<close>

definition py_int :: "string \<Rightarrow> nat" where
  "py_int s = foldl (\<lambda>acc c. 10 * acc + digit_val c) 0 (dropWhile (\<lambda>c. c = CHR '' '') s)"

definition is_leap :: "nat \<Rightarrow> bool" where
  "is_leap y = (y mod 4 = 0 \<and> (y mod 100 \<noteq> 0 \<or> y mod 400 = 0))"

definition days_in_month :: "nat \<Rightarrow> nat \<Rightarrow> nat" where
  "days_in_month y m =
     (if m = 2 then (if is_leap y then 29 else 28)
      else if m \<in> {4, 6, 9, 11} then 30 else 31)"

text \<open>The range checks of the \<open>datetime\<close> constructor; outside them it raises \<open>ValueError\<close>.\<close>

definition valid_datetime :: "datetime \<Rightarrow> bool" where
  "valid_datetime t =
     (1 \<le> year t \<and> year t \<le> 9999 \<and> 1 \<le> month t \<and> month t \<le> 12 \<and>
      1 \<le> day t \<and> day t \<le> days_in_month (year t) (month t) \<and>
      hour t \<le> 23 \<and> minute t \<le> 59 \<and> second t \<le> 59 \<and> microsecond t \<le> 999999)"

definition group :: "(directive \<times> string) list \<Rightarrow> directive \<Rightarrow> nat \<Rightarrow> nat" where
  "group g d dflt = (case map_of g d of None \<Rightarrow> dflt | Some t \<Rightarrow> py_int t)"

text \<open>
  The fields read from the groups, with \<open>strptime\<close>'s defaults for a directive the format
  lacks; the text of \<^verbatim>\<open>%f\<close> is padded with zeros on the right to six digits.
\<close>

definition found_datetime :: "(directive \<times> string) list \<Rightarrow> datetime" where
  "found_datetime g =
     (let m = group g Dir_m 1; dd = group g Dir_d 1
      in \<lparr>year = group g Dir_Y (if m = 2 \<and> dd = 29 then 1904 else 1900),
          month = m, day = dd,
          hour = group g Dir_H 0, minute = group g Dir_M 0, second = group g Dir_S 0,
          microsecond = (case map_of g Dir_f of None \<Rightarrow> 0
             | Some t \<Rightarrow> py_int (t @ replicate (6 - length t) CHR ''0''))\<rparr>)"

text \<open>
  \<open>strptime\<close> raises \<open>ValueError\<close> when the format does not match, when the first match
  leaves unconverted data, and when the fields are no date and time.
\<close>

definition strptime :: "string \<Rightarrow> directive list \<Rightarrow> error + datetime" where
  "strptime data_string fmt =
     (case regex_match fmt data_string of
        [] \<Rightarrow> Inl ValueError
      | (g, rest) # _ \<Rightarrow>
          if rest \<noteq> [] then Inl ValueError
          else if valid_datetime (found_datetime g) then Inr (found_datetime g)
          else Inl ValueError)"

definition digit_char :: "nat \<Rightarrow> char" where
  "digit_char n = ''0123456789'' ! (n mod 10)"

definition pad2 :: "nat \<Rightarrow> string" where
  "pad2 n = [digit_char (n div 10), digit_char n]"

definition pad4 :: "nat \<Rightarrow> string" where
  "pad4 n = [digit_char (n div 1000), digit_char (n div 100), digit_char (n div 10), digit_char n]"

definition pad6 :: "nat \<Rightarrow> string" where
  "pad6 n = [digit_char (n div 100000), digit_char (n div 10000), digit_char (n div 1000),
             digit_char (n div 100), digit_char (n div 10), digit_char n]"

text \<open>
  \<open>strftime\<close> renders every field zero-padded to its width, the year to four digits as
  the library documents it (a C library that leaves years below 1000 unpadded differs
  there; the theorems that read a rendered year ask for a year of four digits).
\<close>

fun strftime :: "datetime \<Rightarrow> directive list \<Rightarrow> string" where
  "strftime t [] = []"
| "strftime t (Dir_Y # ds) = pad4 (year t) @ strftime t ds"
| "strftime t (Dir_m # ds) = pad2 (month t) @ strftime t ds"
| "strftime t (Dir_d # ds) = pad2 (day t) @ strftime t ds"
| "strftime t (Dir_H # ds) = pad2 (hour t) @ strftime t ds"
| "strftime t (Dir_M # ds) = pad2 (minute t) @ strftime t ds"
| "strftime t (Dir_S # ds) = pad2 (second t) @ strftime t ds"
| "strftime t (Dir_f # ds) = pad6 (microsecond t) @ strftime t ds"
| "strftime t (Lit c # ds) = c # strftime t ds"

text \<open>Naive datetimes compare field by field, the year first.\<close>

definition dt_key :: "datetime \<Rightarrow> nat \<times> nat \<times> nat \<times> nat \<times> nat \<times> nat \<times> nat" where
  "dt_key t = (year t, month t, day t, hour t, minute t, second t, microsecond t)"

subsection \<open>Constants and data of the collector\<close>

text \<open>\<^verbatim>\<open>DATE_FORMAT = '%Y-%m-%dT%H:%M:%SZ'\<close>\<close>

definition DATE_FORMAT :: "directive list" where
  "DATE_FORMAT = [Dir_Y, Lit CHR ''-'', Dir_m, Lit CHR ''-'', Dir_d, Lit CHR ''T'',
                  Dir_H, Lit CHR '':'', Dir_M, Lit CHR '':'', Dir_S, Lit CHR ''Z'']"

text \<open>\<^verbatim>\<open>date_format_with_milliseconds = '%Y-%m-%dT%H:%M:%S.%fZ'\<close>\<close>

definition date_format_with_milliseconds :: "directive list" where
  "date_format_with_milliseconds =
     [Dir_Y, Lit CHR ''-'', Dir_m, Lit CHR ''-'', Dir_d, Lit CHR ''T'',
      Dir_H, Lit CHR '':'', Dir_M, Lit CHR '':'', Dir_S, Lit CHR ''.'', Dir_f, Lit CHR ''Z'']"

text \<open>
  An activity logging is a dictionary; the collector reads \<^verbatim>\<open>taskId\<close> and
  \<^verbatim>\<open>requestTime\<close> with \<open>.get\<close> (\<open>None\<close> when the key is absent) and passes
  the other entries through (\<open>payload\<close>). Two loggings are equal when all entries are.
\<close>

record 'p logging =
  taskId :: "string option"
  requestTime :: "string option"
  payload :: 'p

text \<open>
  The last-run object. A field is \<open>None\<close> when its key is absent. The collector stores
  \<open>list(last_fetched_loggings)\<close> of a set and reads it back with \<open>set(...)\<close>, so the
  stored list is kept as the set of its members.
\<close>

record last_run =
  last_fetch_time :: "string option"
  last_fetched_loggings :: "string option set option"

text \<open>
  \<^verbatim>\<open>client.get_activity_logging_request(from_date, to_date, offset, limit)\<close>:
  the page the vendor returns, or the exception of the failed request.
\<close>

type_synonym 'p client = "string \<Rightarrow> string \<Rightarrow> int \<Rightarrow> int \<Rightarrow> error + 'p logging list"

subsection \<open>\<open>get_max_fetch_activity_logging\<close>\<close>

text \<open>
  The \<^verbatim>\<open>while logging_to_fetch > 0\<close> loop. Its state is the source's
  \<open>activity_loggings\<close>, \<open>offset\<close> and \<open>logging_to_fetch\<close>, and the log \<open>requests\<close>
  of the calls issued to the client so far, each as (offset, limit): the effect of the loop
  on the vendor, returned beside the loggings. An exception of the client ends the loop.
  \<open>page_limit\<close> is the source's
  \<^verbatim>\<open>limit = logging_to_fetch if logging_to_fetch < 1000 else 1000\<close>.
\<close>

definition page_limit :: "int \<Rightarrow> int" where
  "page_limit logging_to_fetch = (if logging_to_fetch < 1000 then logging_to_fetch else 1000)"

function get_max_fetch_loop ::
  "(int \<Rightarrow> int \<Rightarrow> error + 'a list) \<Rightarrow> (int \<times> int) list \<Rightarrow> 'a list \<Rightarrow> int \<Rightarrow> int
    \<Rightarrow> error + ((int \<times> int) list \<times> 'a list)" where
  "get_max_fetch_loop request requests activity_loggings offset logging_to_fetch =
     (if logging_to_fetch > 0 then
        (case request offset (page_limit logging_to_fetch) of
           Inl e \<Rightarrow> Inl e
         | Inr res \<Rightarrow>
             if res = []
             then Inr (requests @ [(offset, page_limit logging_to_fetch)], activity_loggings @ res)
             else get_max_fetch_loop request
                    (requests @ [(offset, page_limit logging_to_fetch)])
                    (activity_loggings @ res)
                    (offset + int (length res)) (logging_to_fetch - int (length res)))
      else Inr (requests, activity_loggings))"
  by pat_completeness auto
termination
  by (relation "measure (\<lambda>(request, requests, activity_loggings, offset, logging_to_fetch).
        nat logging_to_fetch)") auto

declare get_max_fetch_loop.simps [simp del]

definition get_max_fetch_activity_logging ::
  "'p client \<Rightarrow> int \<Rightarrow> string \<Rightarrow> string \<Rightarrow> error + ((int \<times> int) list \<times> 'p logging list)" where
  "get_max_fetch_activity_logging client logging_to_fetch from_date to_date =
     get_max_fetch_loop (client from_date to_date) [] [] 0 logging_to_fetch"

subsection \<open>\<open>remove_milliseconds_from_time_of_loggings\<close>\<close>

text \<open>
  Every logging's \<open>requestTime\<close> is parsed with the milliseconds format and written back
  in \<open>DATE_FORMAT\<close>. The source's \<^verbatim>\<open>request_time_date_obj.replace(microsecond=0)\<close>
  discards its result; the microseconds go because \<open>DATE_FORMAT\<close> has no \<^verbatim>\<open>%f\<close>.
  A missing \<open>requestTime\<close> is \<open>None\<close>, on which \<open>strptime\<close> raises \<open>TypeError\<close>. The source
  mutates the loggings in place; the first exception leaves the function, and the caller
  with it.
\<close>

fun remove_milliseconds_from_time_of_loggings :: "'p logging list \<Rightarrow> error + 'p logging list" where
  "remove_milliseconds_from_time_of_loggings [] = Inr []"
| "remove_milliseconds_from_time_of_loggings (logging # rest) =
     (case requestTime logging of
        None \<Rightarrow> Inl TypeError
      | Some request_time \<Rightarrow>
          (case strptime request_time date_format_with_milliseconds of
             Inl e \<Rightarrow> Inl e
           | Inr request_time_date_obj \<Rightarrow>
               (case remove_milliseconds_from_time_of_loggings rest of
                  Inl e \<Rightarrow> Inl e
                | Inr rest' \<Rightarrow>
                    Inr (logging\<lparr>requestTime := Some (strftime request_time_date_obj DATE_FORMAT)\<rparr>
                         # rest'))))"

subsection \<open>\<open>remove_duplicated_activity_logging\<close>\<close>

text \<open>
  The \<^verbatim>\<open>for logging in activity_loggings.copy()\<close> loop: the first argument is what is
  left of the copy, the second the list \<open>activity_loggings\<close> the loop removes from.
  \<open>list.remove\<close> deletes the first element equal to its argument (\<open>remove1\<close>) and raises
  \<open>ValueError\<close> when there is none.
\<close>

fun remove_duplicated_loop ::
  "'p logging list \<Rightarrow> 'p logging list \<Rightarrow> string \<Rightarrow> string option set
    \<Rightarrow> error + ('p logging list \<times> string \<times> string option set)" where
  "remove_duplicated_loop [] activity_loggings time_to_check last_fetched =
     Inr (activity_loggings, time_to_check, last_fetched)"
| "remove_duplicated_loop (logging # rest) activity_loggings time_to_check last_fetched =
     (case requestTime logging of
        None \<Rightarrow> Inl TypeError
      | Some logging_request_time \<Rightarrow>
          (case strptime logging_request_time DATE_FORMAT of
             Inl e \<Rightarrow> Inl e
           | Inr t \<Rightarrow>
               (case strptime time_to_check DATE_FORMAT of
                  Inl e \<Rightarrow> Inl e
                | Inr c \<Rightarrow>
                    if dt_key t > dt_key c
                    then remove_duplicated_loop rest activity_loggings logging_request_time
                           {taskId logging}
                    else if taskId logging \<in> last_fetched
                    then (if logging \<in> set activity_loggings
                          then remove_duplicated_loop rest (remove1 logging activity_loggings)
                                 time_to_check last_fetched
                          else Inl ValueError)
                    else remove_duplicated_loop rest activity_loggings time_to_check
                           (insert (taskId logging) last_fetched))))"

text \<open>\<^verbatim>\<open>set(last_run.get('last_fetched_loggings', []))\<close>\<close>

definition last_fetched_of :: "last_run \<Rightarrow> string option set" where
  "last_fetched_of last_run =
     (case last_fetched_loggings last_run of None \<Rightarrow> {} | Some ids \<Rightarrow> ids)"

definition remove_duplicated_activity_logging ::
  "'p logging list \<Rightarrow> last_run \<Rightarrow> string \<Rightarrow> error + ('p logging list \<times> string option set)" where
  "remove_duplicated_activity_logging activity_loggings last_run time_to_check =
     (case remove_duplicated_loop activity_loggings activity_loggings time_to_check
             (last_fetched_of last_run) of
        Inl e \<Rightarrow> Inl e
      | Inr (kept, _, last_fetched) \<Rightarrow> Inr (kept, last_fetched))"

subsection \<open>\<open>fetch_activity_logging\<close>\<close>

text \<open>\<^verbatim>\<open>from_date = last_run.get('last_fetch_time', first_fetch.strftime(DATE_FORMAT))\<close>\<close>

definition fetch_from_date :: "last_run \<Rightarrow> datetime \<Rightarrow> string" where
  "fetch_from_date last_run first_fetch =
     (case last_fetch_time last_run of
        None \<Rightarrow> strftime first_fetch DATE_FORMAT
      | Some t \<Rightarrow> t)"

text \<open>
  The clock is the argument \<open>now\<close> (the source reads \<open>datetime.now\<close>). The result is the
  pair the source returns: the loggings and the new last-run object.
\<close>

definition fetch_activity_logging ::
  "'p client \<Rightarrow> int \<Rightarrow> datetime \<Rightarrow> last_run \<Rightarrow> datetime \<Rightarrow> error + ('p logging list \<times> last_run)" where
  "fetch_activity_logging client max_fetch first_fetch last_run now =
     (let from_date = fetch_from_date last_run first_fetch;
          to_date = strftime now DATE_FORMAT
      in case get_max_fetch_activity_logging client max_fetch from_date to_date of
           Inl e \<Rightarrow> Inl e
         | Inr (_, fetched) \<Rightarrow>
             (case remove_milliseconds_from_time_of_loggings fetched of
                Inl e \<Rightarrow> Inl e
              | Inr normalized \<Rightarrow>
                  (case remove_duplicated_activity_logging normalized last_run from_date of
                     Inl e \<Rightarrow> Inl e
                   | Inr (activity_loggings, last_fetched) \<Rightarrow>
                       Inr (activity_loggings,
                            if activity_loggings \<noteq> []
                            then \<lparr>last_fetch_time = requestTime (last activity_loggings),
                                  last_fetched_loggings = Some last_fetched\<rparr>
                            else last_run))))"

subsection \<open>The specification's words\<close>

text \<open>
  The paging discipline as the specification states it, read off a log of calls: a call
  is issued only while the accumulated count is below the cap, at the offset equal to the
  accumulated count and with the limit \<open>min (remaining, 1000)\<close>; the calls end with
  the first empty page, or once the count has reached the cap.
\<close>

fun paging_discipline :: "(int \<Rightarrow> int \<Rightarrow> error + 'a list) \<Rightarrow> int \<Rightarrow> int \<Rightarrow> (int \<times> int) list \<Rightarrow> bool" where
  "paging_discipline request max_records accumulated [] = (max_records \<le> accumulated)"
| "paging_discipline request max_records accumulated ((offset, limit) # calls) =
     (accumulated < max_records \<and> offset = accumulated \<and>
      limit = min (max_records - accumulated) 1000 \<and>
      (case request offset limit of
         Inl e \<Rightarrow> False
       | Inr page \<Rightarrow>
           if page = [] then calls = []
           else paging_discipline request max_records (accumulated + int (length page)) calls))"

definition pages_of :: "(int \<Rightarrow> int \<Rightarrow> error + 'a list) \<Rightarrow> (int \<times> int) list \<Rightarrow> 'a list" where
  "pages_of request calls =
     concat (map (\<lambda>(offset, limit). case request offset limit of Inl e \<Rightarrow> [] | Inr page \<Rightarrow> page) calls)"

text \<open>
  Timestamps as the boundary pass compares them: the key of the parsed \<open>DATE_FORMAT\<close>
  string. A string that does not parse (on which the source raises) has the key of all
  zeros, below every date.
\<close>

type_synonym time_key = "nat \<times> nat \<times> nat \<times> nat \<times> nat \<times> nat \<times> nat"

definition time_key :: "string \<Rightarrow> time_key" where
  "time_key s = (case strptime s DATE_FORMAT of Inl e \<Rightarrow> (0, 0, 0, 0, 0, 0, 0) | Inr t \<Rightarrow> dt_key t)"

definition request_key :: "'p logging \<Rightarrow> time_key" where
  "request_key r = (case requestTime r of None \<Rightarrow> (0, 0, 0, 0, 0, 0, 0) | Some s \<Rightarrow> time_key s)"

definition well_timed :: "string \<Rightarrow> bool" where
  "well_timed s = (case strptime s DATE_FORMAT of Inl e \<Rightarrow> False | Inr t \<Rightarrow> True)"

definition well_formed :: "'p logging \<Rightarrow> bool" where
  "well_formed r = (case requestTime r of None \<Rightarrow> False | Some s \<Rightarrow> well_timed s)"

text \<open>
  The boundary pass as the specification states it, over timestamps: a record strictly
  later than \<open>time_to_check\<close> advances it, resets the seen ids to its own and is kept;
  any other record is dropped when its id has been seen, and otherwise kept and its id
  added. The result is the kept records, the final \<open>time_to_check\<close> and the final ids.
\<close>

definition keep :: "'a \<Rightarrow> 'a list \<times> 'b \<Rightarrow> 'a list \<times> 'b" where
  "keep r res = (r # fst res, snd res)"

fun boundary_pass ::
  "'p logging list \<Rightarrow> time_key \<Rightarrow> string option set
    \<Rightarrow> 'p logging list \<times> time_key \<times> string option set" where
  "boundary_pass [] time_to_check seen = ([], time_to_check, seen)"
| "boundary_pass (r # rs) time_to_check seen =
     (if request_key r > time_to_check
      then keep r (boundary_pass rs (request_key r) {taskId r})
      else if taskId r \<in> seen then boundary_pass rs time_to_check seen
      else keep r (boundary_pass rs time_to_check (insert (taskId r) seen)))"

text \<open>
  A \<open>requestTime\<close> carries an explicit sub-second component when it ends in a dot, one to
  six digits and a \<open>Z\<close> of either case, read from the end of the string.
\<close>

definition has_fraction :: "string \<Rightarrow> bool" where
  "has_fraction s =
     (case rev s of
        [] \<Rightarrow> False
      | z # r \<Rightarrow>
          lower z = CHR ''z'' \<and>
          (let frac = takeWhile (\<lambda>c. c \<in> set d09) r
           in 1 \<le> length frac \<and> length frac \<le> 6 \<and>
              (case drop (length frac) r of [] \<Rightarrow> False | c # _ \<Rightarrow> c = CHR ''.'')))"

text \<open>
  Truncation of one logging: its \<open>requestTime\<close> parses with the milliseconds format, and the
  normalised logging differs in \<open>requestTime\<close> only, which is the parsed time rendered in
  \<open>DATE_FORMAT\<close> and reads back as the same date and time with the microseconds zero: the
  second is never rounded up.
\<close>

definition truncated :: "'p logging \<Rightarrow> 'p logging \<Rightarrow> bool" where
  "truncated r r' =
     (case requestTime r of
        None \<Rightarrow> False
      | Some s \<Rightarrow>
          (case strptime s date_format_with_milliseconds of
             Inl e \<Rightarrow> False
           | Inr t \<Rightarrow>
               r' = r\<lparr>requestTime := Some (strftime t DATE_FORMAT)\<rparr> \<and>
               (1000 \<le> year t \<longrightarrow>
                  strptime (strftime t DATE_FORMAT) DATE_FORMAT = Inr (t\<lparr>microsecond := 0\<rparr>))))"

text \<open>Notions of the proofs about matching: literal directives, and the characters a directive can consume.\<close>

definition is_lit :: "directive \<Rightarrow> bool" where
  "is_lit d = (case d of Lit c \<Rightarrow> True | _ \<Rightarrow> False)"

definition dir_chars :: "directive \<Rightarrow> char set" where
  "dir_chars d =
     (case d of Lit l \<Rightarrow> {x. lower x = lower l} | _ \<Rightarrow> \<Union> (set ` set (concat (directive_regex d))))"

subsection \<open>Concrete inputs\<close>

text \<open>The inputs at which the theorems below are instantiated.\<close>

definition failing_client :: "unit client" where
  "failing_client from_date to_date offset limit = Inl RequestError"

definition empty_client :: "unit client" where
  "empty_client from_date to_date offset limit = Inr []"

definition new_year_2024 :: datetime where
  "new_year_2024 = \<lparr>year = 2024, month = 1, day = 1, hour = 0, minute = 0, second = 0,
                      microsecond = 0\<rparr>"

definition noon_2024 :: datetime where
  "noon_2024 = \<lparr>year = 2024, month = 1, day = 1, hour = 12, minute = 0, second = 0,
                  microsecond = 0\<rparr>"

definition last_run_A :: last_run where
  "last_run_A = \<lparr>last_fetch_time = Some ''2024-01-01T00:00:00Z'',
                  last_fetched_loggings = Some {Some ''A''}\<rparr>"

definition wire :: "string \<Rightarrow> string \<Rightarrow> unit logging" where
  "wire i t = \<lparr>taskId = Some i, requestTime = Some t, payload = ()\<rparr>"

definition rec_A :: "'p \<Rightarrow> 'p logging" where
  "rec_A p = \<lparr>taskId = Some ''A'', requestTime = Some ''2024-01-01T00:00:00Z'', payload = p\<rparr>"

definition rec_B :: "'p \<Rightarrow> 'p logging" where
  "rec_B p = \<lparr>taskId = Some ''B'', requestTime = Some ''2024-01-01T00:00:00Z'', payload = p\<rparr>"

definition rec_C :: "'p \<Rightarrow> 'p logging" where
  "rec_C p = \<lparr>taskId = Some ''C'', requestTime = Some ''2024-01-01T00:00:05Z'', payload = p\<rparr>"

definition last_run_C :: last_run where
  "last_run_C = \<lparr>last_fetch_time = Some ''2024-01-01T00:00:05Z'',
                  last_fetched_loggings = Some {Some ''C''}\<rparr>"

text \<open>A vendor holding 2500 loggings that honours offset and limit.\<close>

definition vendor_2500 :: "unit client" where
  "vendor_2500 from_date to_date offset limit =
     Inr (take (nat limit) (drop (nat offset)
            (replicate 2500 (wire ''A'' ''2024-01-01T00:00:00.000Z''))))"

definition rec_D :: "unit logging" where
  "rec_D = \<lparr>taskId = Some ''D'', requestTime = Some ''2024-01-01T00:00:05Z'', payload = ()\<rparr>"

definition rec_E :: "unit logging" where
  "rec_E = \<lparr>taskId = Some ''E'', requestTime = Some ''2024-01-01T00:00:09Z'', payload = ()\<rparr>"

definition last_run_E :: last_run where
  "last_run_E = \<lparr>last_fetch_time = Some ''2024-01-01T00:00:09Z'',
                  last_fetched_loggings = Some {Some ''E''}\<rparr>"

definition first_run :: last_run where
  "first_run = \<lparr>last_fetch_time = None, last_fetched_loggings = None\<rparr>"

definition last_run_AB :: last_run where
  "last_run_AB = \<lparr>last_fetch_time = Some ''2024-01-01T00:00:00Z'',
                  last_fetched_loggings = Some {Some ''A'', Some ''B''}\<rparr>"

text \<open>
  A vendor that honours offset and limit: asked from 2024-01-01T00:00:00Z it holds the
  loggings A, B and C, asked from any other time C, D and E.
\<close>

definition wire_ABC :: "unit logging list" where
  "wire_ABC = [wire ''A'' ''2024-01-01T00:00:00.000Z'', wire ''B'' ''2024-01-01T00:00:00.999000Z'',
               wire ''C'' ''2024-01-01T00:00:05.250Z'']"

definition wire_CDE :: "unit logging list" where
  "wire_CDE = [wire ''C'' ''2024-01-01T00:00:05.250Z'', wire ''D'' ''2024-01-01T00:00:05.750Z'',
               wire ''E'' ''2024-01-01T00:00:09.000Z'']"

definition vendor_log :: "unit client" where
  "vendor_log from_date to_date offset limit =
     Inr (take (nat limit) (drop (nat offset)
            (if from_date = ''2024-01-01T00:00:00Z'' then wire_ABC else wire_CDE)))"

text \<open>A vendor that renders \<open>requestTime\<close> in whole seconds.\<close>

definition vendor_whole_seconds :: "unit client" where
  "vendor_whole_seconds from_date to_date offset limit =
     Inr (take (nat limit) (drop (nat offset) [rec_A (), rec_B (), rec_C ()]))"

section \<open>The paging loop\<close>

lemma remove_duplicated_nothing:
  "remove_duplicated_activity_logging [] last_run time_to_check =
     Inr ([], last_fetched_of last_run)"
  by (simp add: remove_duplicated_activity_logging_def)

lemma page_limit_min: "page_limit l = min l 1000"
  by (simp add: page_limit_def min_def)

lemma loop_stop:
  "logging_to_fetch \<le> 0 \<Longrightarrow>
   get_max_fetch_loop request requests activity_loggings offset logging_to_fetch =
     Inr (requests, activity_loggings)"
  by (subst get_max_fetch_loop.simps) simp

lemma loop_error:
  "0 < logging_to_fetch \<Longrightarrow>
   request offset (page_limit logging_to_fetch) = Inl e \<Longrightarrow>
   get_max_fetch_loop request requests activity_loggings offset logging_to_fetch = Inl e"
  by (subst get_max_fetch_loop.simps) simp

lemma loop_break:
  "0 < logging_to_fetch \<Longrightarrow>
   request offset (page_limit logging_to_fetch) = Inr [] \<Longrightarrow>
   get_max_fetch_loop request requests activity_loggings offset logging_to_fetch =
     Inr (requests @ [(offset, page_limit logging_to_fetch)],
          activity_loggings)"
  by (subst get_max_fetch_loop.simps) simp

lemma loop_continue:
  "0 < logging_to_fetch \<Longrightarrow>
   request offset (page_limit logging_to_fetch) = Inr res \<Longrightarrow>
   res \<noteq> [] \<Longrightarrow>
   get_max_fetch_loop request requests activity_loggings offset logging_to_fetch =
     get_max_fetch_loop request
       (requests @ [(offset, page_limit logging_to_fetch)])
       (activity_loggings @ res) (offset + int (length res)) (logging_to_fetch - int (length res))"
  by (subst get_max_fetch_loop.simps) simp

lemma loop_discipline:
  "get_max_fetch_loop request requests activity_loggings offset logging_to_fetch = Inr (requests', loggings') \<Longrightarrow>
   \<exists>new. requests' = requests @ new \<and>
     paging_discipline request (offset + logging_to_fetch) offset new \<and>
     loggings' = activity_loggings @ pages_of request new"
proof (induction request requests activity_loggings offset logging_to_fetch rule: get_max_fetch_loop.induct)
  case (1 request requests activity_loggings offset logging_to_fetch)
  let ?limit = "page_limit logging_to_fetch"
  show ?case
  proof (cases "0 < logging_to_fetch")
    case False
    with "1.prems" have "requests' = requests" "loggings' = activity_loggings"
      by (simp_all add: loop_stop)
    moreover have "paging_discipline request (offset + logging_to_fetch) offset []"
      using False by simp
    ultimately show ?thesis
      by (intro exI[of _ "[]"]) (simp add: pages_of_def)
  next
    case pos: True
    show ?thesis
    proof (cases "request offset ?limit")
      case (Inl e)
      with pos "1.prems" show ?thesis
        by (simp add: loop_error)
    next
      case (Inr res)
      show ?thesis
      proof (cases "res = []")
        case True
        with Inr have page: "request offset ?limit = Inr []" by simp
        from "1.prems" pos page have eqs: "requests' = requests @ [(offset, ?limit)]"
          "loggings' = activity_loggings"
          by (simp_all add: loop_break)
        have disc: "paging_discipline request (offset + logging_to_fetch) offset [(offset, ?limit)]"
          using pos page by (simp add: page_limit_min)
        have "pages_of request [(offset, ?limit)] = []"
          unfolding pages_of_def using page by simp
        with eqs(2) have "loggings' = activity_loggings @ pages_of request [(offset, ?limit)]"
          by simp
        with eqs(1) disc show ?thesis by blast
      next
        case False
        from "1.prems" have rec:
          "get_max_fetch_loop request (requests @ [(offset, ?limit)]) (activity_loggings @ res)
             (offset + int (length res)) (logging_to_fetch - int (length res)) = Inr (requests', loggings')"
          using loop_continue[of logging_to_fetch request offset res requests activity_loggings]
            pos Inr False by simp
        from "1.IH"[OF pos Inr False rec] obtain new where new:
          "requests' = (requests @ [(offset, ?limit)]) @ new"
          "paging_discipline request (offset + int (length res) + (logging_to_fetch - int (length res)))
             (offset + int (length res)) new"
          "loggings' = (activity_loggings @ res) @ pages_of request new"
          by blast
        have same: "offset + int (length res) + (logging_to_fetch - int (length res)) = offset + logging_to_fetch"
          by simp
        have disc: "paging_discipline request (offset + logging_to_fetch) offset ((offset, ?limit) # new)"
          using pos Inr False new(2)[unfolded same] by (simp add: page_limit_min)
        have "pages_of request ((offset, ?limit) # new) = res @ pages_of request new"
          unfolding pages_of_def using Inr by simp
        with new(3) have "loggings' = activity_loggings @ pages_of request ((offset, ?limit) # new)"
          by simp
        moreover from new(1) have "requests' = requests @ ((offset, ?limit) # new)"
          by simp
        ultimately show ?thesis using disc by blast
      qed
    qed
  qed
qed

lemma loop_cap:
  "get_max_fetch_loop request requests activity_loggings offset logging_to_fetch = Inr (requests', loggings') \<Longrightarrow>
   \<forall>off lim res. 0 < lim \<longrightarrow> request off lim = Inr res \<longrightarrow> int (length res) \<le> lim \<Longrightarrow>
   0 \<le> logging_to_fetch \<Longrightarrow>
   int (length loggings') \<le> int (length activity_loggings) + logging_to_fetch"
proof (induction request requests activity_loggings offset logging_to_fetch rule: get_max_fetch_loop.induct)
  case (1 request requests activity_loggings offset logging_to_fetch)
  let ?limit = "page_limit logging_to_fetch"
  show ?case
  proof (cases "0 < logging_to_fetch")
    case False
    with "1.prems" show ?thesis
      by (simp add: loop_stop)
  next
    case pos: True
    show ?thesis
    proof (cases "request offset ?limit")
      case (Inl e)
      with pos "1.prems" show ?thesis
        by (simp add: loop_error)
    next
      case (Inr res)
      moreover from pos have "0 < ?limit" by (simp add: page_limit_def)
      ultimately have le: "int (length res) \<le> ?limit" using "1.prems"(2) by blast
      show ?thesis
      proof (cases "res = []")
        case True
        with Inr have page: "request offset ?limit = Inr []" by simp
        from "1.prems"(1) pos page have "loggings' = activity_loggings"
          by (simp add: loop_break)
        with pos show ?thesis by simp
      next
        case False
        from "1.prems"(1) have rec:
          "get_max_fetch_loop request (requests @ [(offset, ?limit)]) (activity_loggings @ res)
             (offset + int (length res)) (logging_to_fetch - int (length res)) = Inr (requests', loggings')"
          using loop_continue[of logging_to_fetch request offset res requests activity_loggings]
            pos Inr False by simp
        have "0 \<le> logging_to_fetch - int (length res)"
          using le by (simp add: page_limit_def split: if_splits)
        from "1.IH"[OF pos Inr False rec "1.prems"(2) this] show ?thesis by simp
      qed
    qed
  qed
qed

section \<open>The boundary pass\<close>

lemma well_formedE:
  assumes "well_formed r"
  obtains s t where "requestTime r = Some s" "strptime s DATE_FORMAT = Inr t"
    "request_key r = dt_key t" "time_key s = dt_key t" "well_timed s"
  using assms
  by (auto simp: well_formed_def well_timed_def request_key_def time_key_def
      split: option.splits sum.splits)

lemma well_timedE:
  assumes "well_timed s"
  obtains t where "strptime s DATE_FORMAT = Inr t" "time_key s = dt_key t"
  using assms by (auto simp: well_timed_def time_key_def split: sum.splits)

lemma loop_refines_mset:
  "\<forall>r\<in>set rest. well_formed r \<Longrightarrow> well_timed ttc \<Longrightarrow> mset al = mset pre + mset rest \<Longrightarrow>
   \<exists>al' ttc'. remove_duplicated_loop rest al ttc seen =
       Inr (al', ttc', snd (snd (boundary_pass rest (time_key ttc) seen))) \<and>
     well_timed ttc' \<and>
     time_key ttc' = fst (snd (boundary_pass rest (time_key ttc) seen)) \<and>
     mset al' = mset pre + mset (fst (boundary_pass rest (time_key ttc) seen))"
proof (induction rest arbitrary: al ttc seen pre)
  case Nil
  then show ?case by simp
next
  case (Cons r rest)
  from Cons.prems(1) have wf: "well_formed r" and wfs: "\<forall>r\<in>set rest. well_formed r"
    by simp_all
  from wf obtain s t where r: "requestTime r = Some s" "strptime s DATE_FORMAT = Inr t"
    "request_key r = dt_key t" "time_key s = dt_key t" "well_timed s"
    by (rule well_formedE)
  from Cons.prems(2) obtain c where c: "strptime ttc DATE_FORMAT = Inr c" "time_key ttc = dt_key c"
    by (rule well_timedE)
  show ?case
  proof (cases "dt_key t > dt_key c")
    case True
    have m: "mset al = mset (r # pre) + mset rest"
      using Cons.prems(3) by simp
    from Cons.IH[OF wfs r(5) m, of "{taskId r}"] True r c show ?thesis
      by (auto simp: keep_def)
  next
    case notgt: False
    show ?thesis
    proof (cases "taskId r \<in> seen")
      case True
      have inal: "r \<in> set al"
        using Cons.prems(3) by (metis mset.simps(2) set_mset_mset union_iff union_single_eq_member)
      have m: "mset (remove1 r al) = mset pre + mset rest"
        using Cons.prems(3) by simp
      from Cons.IH[OF wfs Cons.prems(2) m, of seen] True notgt inal r c show ?thesis
        by auto
    next
      case False
      have m: "mset al = mset (r # pre) + mset rest"
        using Cons.prems(3) by simp
      from Cons.IH[OF wfs Cons.prems(2) m, of "insert (taskId r) seen"] False notgt r c show ?thesis
        by (auto simp: keep_def)
    qed
  qed
qed

lemma loop_refines_list:
  "remove_duplicated_loop rest (pre @ rest) ttc seen = Inr (al', ttc', seen') \<Longrightarrow>
   distinct (pre @ rest) \<Longrightarrow> \<forall>r\<in>set rest. well_formed r \<Longrightarrow> well_timed ttc \<Longrightarrow>
   al' = pre @ fst (boundary_pass rest (time_key ttc) seen)"
proof (induction rest arbitrary: pre ttc seen)
  case Nil
  then show ?case by simp
next
  case (Cons r rest)
  from Cons.prems(3) have wf: "well_formed r" and wfs: "\<forall>r\<in>set rest. well_formed r"
    by simp_all
  from wf obtain s t where r: "requestTime r = Some s" "strptime s DATE_FORMAT = Inr t"
    "request_key r = dt_key t" "time_key s = dt_key t" "well_timed s"
    by (rule well_formedE)
  from Cons.prems(4) obtain c where c: "strptime ttc DATE_FORMAT = Inr c" "time_key ttc = dt_key c"
    by (rule well_timedE)
  have d: "distinct ((pre @ [r]) @ rest)" using Cons.prems(2) by simp
  have app: "pre @ r # rest = (pre @ [r]) @ rest" by simp
  show ?case
  proof (cases "dt_key t > dt_key c")
    case True
    with Cons.prems(1) r c have
      "remove_duplicated_loop rest ((pre @ [r]) @ rest) s {taskId r} = Inr (al', ttc', seen')"
      by simp
    from Cons.IH[OF this d wfs r(5)] True r c show ?thesis
      by (simp add: keep_def)
  next
    case notgt: False
    show ?thesis
    proof (cases "taskId r \<in> seen")
      case True
      have rm: "remove1 r (pre @ r # rest) = pre @ rest"
        using Cons.prems(2) by (simp add: remove1_append)
      from Cons.prems(1) True notgt r c rm have
        "remove_duplicated_loop rest (pre @ rest) ttc seen = Inr (al', ttc', seen')"
        by (simp split: if_splits)
      moreover have "distinct (pre @ rest)" using Cons.prems(2) by simp
      ultimately show ?thesis
        using Cons.IH[of pre ttc seen] wfs Cons.prems(4) True notgt r c by simp
    next
      case False
      with Cons.prems(1) notgt r c have
        "remove_duplicated_loop rest ((pre @ [r]) @ rest) ttc (insert (taskId r) seen) = Inr (al', ttc', seen')"
        by simp
      from Cons.IH[OF this d wfs Cons.prems(4)] False notgt r c show ?thesis
        by (simp add: keep_def)
    qed
  qed
qed

lemma keep_eq:
  "keep r res = (k, t', S) \<longleftrightarrow> (\<exists>k0. res = (k0, t', S) \<and> k = r # k0)"
  by (cases res) (auto simp: keep_def)

lemma pass_subset: "boundary_pass rs t seen = (k, t', S) \<Longrightarrow> set k \<subseteq> set rs"
proof (induction rs arbitrary: t seen k)
  case Nil
  then show ?case by simp
next
  case (Cons r rs)
  show ?case
  proof (cases "request_key r > t")
    case True
    with Cons.prems obtain k0 where "boundary_pass rs (request_key r) {taskId r} = (k0, t', S)"
      and "k = r # k0"
      by (auto simp: keep_eq)
    with Cons.IH[of "request_key r" "{taskId r}" k0] show ?thesis by auto
  next
    case False
    show ?thesis
    proof (cases "taskId r \<in> seen")
      case True
      with False Cons.prems have "boundary_pass rs t seen = (k, t', S)" by simp
      with Cons.IH[of t seen k] show ?thesis by auto
    next
      case notin: False
      with False Cons.prems obtain k0 where
        "boundary_pass rs t (insert (taskId r) seen) = (k0, t', S)" and "k = r # k0"
        by (auto simp: keep_eq)
      with Cons.IH[of t "insert (taskId r) seen" k0] show ?thesis by auto
    qed
  qed
qed

lemma pass_bound:
  "boundary_pass rs t seen = (k, t', S) \<Longrightarrow> t \<le> t' \<and> (\<forall>r\<in>set rs. request_key r \<le> t')"
proof (induction rs arbitrary: t seen k)
  case Nil
  then show ?case by simp
next
  case (Cons r rs)
  show ?case
  proof (cases "request_key r > t")
    case True
    with Cons.prems obtain k0 where "boundary_pass rs (request_key r) {taskId r} = (k0, t', S)"
      by (auto simp: keep_eq)
    from Cons.IH[OF this] True show ?thesis by auto
  next
    case False
    with Cons.prems obtain k0 seen0 where "boundary_pass rs t seen0 = (k0, t', S)"
      by (auto simp: keep_eq split: if_splits)
    from Cons.IH[OF this] False show ?thesis by auto
  qed
qed

lemma pass_no_advance:
  "boundary_pass rs t seen = (k, t', S) \<Longrightarrow> t' = t \<Longrightarrow> S = seen \<union> taskId ` set rs"
proof (induction rs arbitrary: seen k)
  case Nil
  then show ?case by simp
next
  case (Cons r rs)
  show ?case
  proof (cases "request_key r > t")
    case True
    with Cons.prems obtain k0 where "boundary_pass rs (request_key r) {taskId r} = (k0, t', S)"
      by (auto simp: keep_eq)
    from pass_bound[OF this] True Cons.prems(2) show ?thesis by auto
  next
    case False
    show ?thesis
    proof (cases "taskId r \<in> seen")
      case True
      with False Cons.prems have "boundary_pass rs t seen = (k, t', S)" by simp
      from Cons.IH[OF this Cons.prems(2)] True show ?thesis by auto
    next
      case notin: False
      with False Cons.prems obtain k0 where
        "boundary_pass rs t (insert (taskId r) seen) = (k0, t', S)"
        by (auto simp: keep_eq)
      from Cons.IH[OF this Cons.prems(2)] show ?thesis by auto
    qed
  qed
qed

lemma pass_never_exceeds:
  "\<forall>r\<in>set rs. request_key r \<le> t \<Longrightarrow> fst (snd (boundary_pass rs t seen)) = t"
  by (induction rs arbitrary: seen) (auto simp: keep_def)

lemma pass_ids_at_watermark:
  "boundary_pass rs t seen = (k, t', S) \<Longrightarrow> r \<in> set rs \<Longrightarrow> request_key r = t' \<Longrightarrow> taskId r \<in> S"
proof (induction rs arbitrary: t seen k)
  case Nil
  then show ?case by simp
next
  case (Cons x rs)
  show ?case
  proof (cases "request_key x > t")
    case True
    with Cons.prems obtain k0 where sub: "boundary_pass rs (request_key x) {taskId x} = (k0, t', S)"
      by (auto simp: keep_eq)
    show ?thesis
    proof (cases "r = x")
      case True
      with Cons.prems(3) pass_no_advance[OF sub] show ?thesis by auto
    next
      case False
      with Cons.prems(2) have "r \<in> set rs" by simp
      from Cons.IH[OF sub this Cons.prems(3)] show ?thesis .
    qed
  next
    case False
    with Cons.prems obtain k0 seen0 where sub: "boundary_pass rs t seen0 = (k0, t', S)"
      and seen0: "taskId x \<in> seen0"
      by (auto simp: keep_eq split: if_splits)
    show ?thesis
    proof (cases "r = x")
      case True
      with False Cons.prems(3) pass_bound[OF sub] have "t' = t" by auto
      from pass_no_advance[OF sub this] seen0 True show ?thesis by auto
    next
      case neq: False
      with Cons.prems(2) have "r \<in> set rs" by simp
      from Cons.IH[OF sub this Cons.prems(3)] show ?thesis .
    qed
  qed
qed

lemma pass_advance_kept:
  "boundary_pass rs t seen = (k, t', S) \<Longrightarrow> t < t' \<Longrightarrow> \<exists>r\<in>set k. request_key r = t'"
proof (induction rs arbitrary: t seen k)
  case Nil
  then show ?case by simp
next
  case (Cons x rs)
  show ?case
  proof (cases "request_key x > t")
    case True
    with Cons.prems obtain k0 where sub: "boundary_pass rs (request_key x) {taskId x} = (k0, t', S)"
      and k: "k = x # k0"
      by (auto simp: keep_eq)
    show ?thesis
    proof (cases "request_key x < t'")
      case True
      from Cons.IH[OF sub this] k show ?thesis by auto
    next
      case False
      with pass_bound[OF sub] have "request_key x = t'" by auto
      with k show ?thesis by auto
    qed
  next
    case False
    show ?thesis
    proof (cases "taskId x \<in> seen")
      case True
      with False Cons.prems have "boundary_pass rs t seen = (k, t', S)" by simp
      from Cons.IH[OF this Cons.prems(2)] show ?thesis .
    next
      case notin: False
      with False Cons.prems obtain k0 where
        sub: "boundary_pass rs t (insert (taskId x) seen) = (k0, t', S)" and k: "k = x # k0"
        by (auto simp: keep_eq)
      from Cons.IH[OF sub Cons.prems(2)] k show ?thesis by auto
    qed
  qed
qed

lemma pass_kept_unseen:
  "boundary_pass rs t seen = (k, t', S) \<Longrightarrow> sorted (map request_key rs) \<Longrightarrow>
   r \<in> set k \<Longrightarrow> request_key r \<le> t \<Longrightarrow> taskId r \<notin> seen"
proof (induction rs arbitrary: seen k)
  case Nil
  then show ?case by simp
next
  case (Cons x rs)
  from Cons.prems(2) have srt: "sorted (map request_key rs)"
    and least: "\<forall>y\<in>set rs. request_key x \<le> request_key y"
    by simp_all
  show ?case
  proof (cases "request_key x > t")
    case True
    with Cons.prems obtain k0 where sub: "boundary_pass rs (request_key x) {taskId x} = (k0, t', S)"
      and k: "k = x # k0"
      by (auto simp: keep_eq)
    from pass_subset[OF sub] k Cons.prems(3) have "r = x \<or> r \<in> set rs" by auto
    with least have "request_key x \<le> request_key r" by auto
    with True Cons.prems(4) show ?thesis by auto
  next
    case False
    show ?thesis
    proof (cases "taskId x \<in> seen")
      case True
      with False Cons.prems have "boundary_pass rs t seen = (k, t', S)" by simp
      from Cons.IH[OF this srt Cons.prems(3,4)] show ?thesis .
    next
      case notin: False
      with False Cons.prems obtain k0 where
        sub: "boundary_pass rs t (insert (taskId x) seen) = (k0, t', S)" and k: "k = x # k0"
        by (auto simp: keep_eq)
      show ?thesis
      proof (cases "r = x")
        case True
        with notin show ?thesis by simp
      next
        case neq: False
        with k Cons.prems(3) have "r \<in> set k0" by simp
        from Cons.IH[OF sub srt this Cons.prems(4)] show ?thesis by simp
      qed
    qed
  qed
qed

lemma pass_ids_origin:
  "boundary_pass rs t seen = (k, t', S) \<Longrightarrow> sorted (map request_key rs) \<Longrightarrow>
   \<forall>r\<in>set rs. t \<le> request_key r \<Longrightarrow> i \<in> S \<Longrightarrow>
   (i \<in> seen \<and> t' = t) \<or> (\<exists>r\<in>set rs. taskId r = i \<and> request_key r = t')"
proof (induction rs arbitrary: t seen k)
  case Nil
  then show ?case by simp
next
  case (Cons x rs)
  from Cons.prems(2) have srt: "sorted (map request_key rs)"
    and least: "\<forall>y\<in>set rs. request_key x \<le> request_key y"
    by simp_all
  from Cons.prems(3) have xt: "t \<le> request_key x" and ge: "\<forall>r\<in>set rs. t \<le> request_key r"
    by simp_all
  show ?case
  proof (cases "request_key x > t")
    case True
    with Cons.prems obtain k0 where sub: "boundary_pass rs (request_key x) {taskId x} = (k0, t', S)"
      by (auto simp: keep_eq)
    from Cons.IH[OF sub srt least Cons.prems(4)] show ?thesis by auto
  next
    case False
    with xt have eq: "request_key x = t" by simp
    show ?thesis
    proof (cases "taskId x \<in> seen")
      case True
      with False Cons.prems have "boundary_pass rs t seen = (k, t', S)" by simp
      from Cons.IH[OF this srt ge Cons.prems(4)] show ?thesis by auto
    next
      case notin: False
      with False Cons.prems obtain k0 where
        sub: "boundary_pass rs t (insert (taskId x) seen) = (k0, t', S)"
        by (auto simp: keep_eq)
      from Cons.IH[OF sub srt ge Cons.prems(4)] eq show ?thesis by auto
    qed
  qed
qed

lemma loop_sorted:
  "remove_duplicated_loop rest al ttc seen = Inr (al', ttc', seen') \<Longrightarrow>
   sorted (map f al) \<Longrightarrow> sorted (map f al') \<and> length al' \<le> length al"
proof (induction rest arbitrary: al ttc seen)
  case Nil
  then show ?case by simp
next
  case (Cons r rest)
  from Cons.prems(1) obtain al0 ttc0 seen0 where
    sub: "remove_duplicated_loop rest al0 ttc0 seen0 = Inr (al', ttc', seen')"
    and al0: "al0 = al \<or> al0 = remove1 r al"
    by (auto split: option.splits sum.splits if_splits)
  from al0 Cons.prems(2) have "sorted (map f al0)"
    by (auto simp: sorted_map_remove1)
  from Cons.IH[OF sub this] al0 show ?case
    by (auto simp: length_remove1 split: if_splits)
qed

lemma loop_success_wf:
  "remove_duplicated_loop rest al ttc seen = Inr res \<Longrightarrow>
   (\<forall>r\<in>set rest. well_formed r) \<and> (rest \<noteq> [] \<longrightarrow> well_timed ttc)"
proof (induction rest arbitrary: al ttc seen)
  case Nil
  then show ?case by simp
next
  case (Cons r rest)
  from Cons.prems obtain s t c where r: "requestTime r = Some s" "strptime s DATE_FORMAT = Inr t"
    "strptime ttc DATE_FORMAT = Inr c"
    by (auto split: option.splits sum.splits)
  from Cons.prems r obtain al0 ttc0 seen0 where
    sub: "remove_duplicated_loop rest al0 ttc0 seen0 = Inr res"
    by (auto split: if_splits)
  from Cons.IH[OF sub] r show ?case
    by (simp add: well_formed_def well_timed_def)
qed

lemma remove_milliseconds_length:
  "remove_milliseconds_from_time_of_loggings al = Inr al' \<Longrightarrow> length al' = length al"
  by (induction al arbitrary: al') (auto split: option.splits sum.splits)

lemma loop_length:
  "remove_duplicated_loop rest al ttc seen = Inr (al', ttc', seen') \<Longrightarrow> length al' \<le> length al"
proof (induction rest arbitrary: al ttc seen)
  case Nil
  then show ?case by simp
next
  case (Cons r rest)
  from Cons.prems(1) obtain al0 ttc0 seen0 where
    sub: "remove_duplicated_loop rest al0 ttc0 seen0 = Inr (al', ttc', seen')"
    and al0: "al0 = al \<or> al0 = remove1 r al"
    by (auto split: option.splits sum.splits if_splits)
  from Cons.IH[OF sub] al0 show ?case
    by (auto simp: length_remove1 split: if_splits)
qed

section \<open>The composition\<close>

lemma fetch_InrE:
  assumes "fetch_activity_logging client max_fetch first_fetch last_run now = Inr (kept, new_last_run)"
  obtains requests fetched normalized last_fetched where
    "get_max_fetch_activity_logging client max_fetch (fetch_from_date last_run first_fetch)
       (strftime now DATE_FORMAT) = Inr (requests, fetched)"
    "remove_milliseconds_from_time_of_loggings fetched = Inr normalized"
    "remove_duplicated_activity_logging normalized last_run (fetch_from_date last_run first_fetch) =
       Inr (kept, last_fetched)"
    "new_last_run = (if kept \<noteq> []
       then \<lparr>last_fetch_time = requestTime (last kept), last_fetched_loggings = Some last_fetched\<rparr>
       else last_run)"
  using assms
  by (auto simp: fetch_activity_logging_def Let_def split: sum.splits prod.splits)

lemma remove_duplicated_InrE:
  assumes "remove_duplicated_activity_logging al last_run ttc = Inr (kept, last_fetched)"
  obtains ttc' where
    "remove_duplicated_loop al al ttc (last_fetched_of last_run) = Inr (kept, ttc', last_fetched)"
  using assms
  by (auto simp: remove_duplicated_activity_logging_def split: sum.splits prod.splits)

lemma sorted_last_greatest:
  "sorted (map f xs) \<Longrightarrow> x \<in> set xs \<Longrightarrow> f x \<le> f (last xs)"
  by (induction xs) (auto split: if_splits)

lemma loop_subset:
  "remove_duplicated_loop rest al ttc seen = Inr (al', ttc', seen') \<Longrightarrow> set al' \<subseteq> set al"
proof (induction rest arbitrary: al ttc seen)
  case Nil
  then show ?case by simp
next
  case (Cons r rest)
  from Cons.prems(1) obtain al0 ttc0 seen0 where
    sub: "remove_duplicated_loop rest al0 ttc0 seen0 = Inr (al', ttc', seen')"
    and al0: "al0 = al \<or> al0 = remove1 r al"
    by (auto split: option.splits sum.splits if_splits)
  from Cons.IH[OF sub] al0 set_remove1_subset[of r al] show ?case
    by auto
qed

text \<open>What one successful boundary pass over a sorted, non-empty result establishes.\<close>

lemma dedup_summary:
  assumes run: "remove_duplicated_activity_logging normalized last_run from_date = Inr (kept, S)"
    and srt: "sorted (map request_key normalized)"
    and ne: "kept \<noteq> []"
  obtains k t' where
    "boundary_pass normalized (time_key from_date) (last_fetched_of last_run) = (k, t', S)"
    "set kept = set k" "set kept \<subseteq> set normalized"
    "\<forall>r\<in>set normalized. well_formed r" "well_timed from_date"
    "\<forall>r\<in>set kept. request_key r \<le> request_key (last kept)"
proof -
  from run obtain ttc' where loop:
    "remove_duplicated_loop normalized normalized from_date (last_fetched_of last_run) =
       Inr (kept, ttc', S)"
    by (rule remove_duplicated_InrE)
  from loop_subset[OF loop] have sub: "set kept \<subseteq> set normalized" .
  with ne have nne: "normalized \<noteq> []" by auto
  from loop_success_wf[OF loop] nne have wf: "\<forall>r\<in>set normalized. well_formed r"
    and wt: "well_timed from_date" by auto
  obtain k t' S' where bp:
    "boundary_pass normalized (time_key from_date) (last_fetched_of last_run) = (k, t', S')"
    by (cases "boundary_pass normalized (time_key from_date) (last_fetched_of last_run)") auto
  from loop_refines_mset[OF wf wt, of normalized "[]" "last_fetched_of last_run"] loop bp
  have "S = S'" and ms: "mset kept = mset k" by auto
  from ms have "set kept = set k" by (metis set_mset_mset)
  moreover from loop_sorted[OF loop srt] have "sorted (map request_key kept)" by simp
  then have "\<forall>r\<in>set kept. request_key r \<le> request_key (last kept)"
    by (auto intro: sorted_last_greatest)
  ultimately show thesis using that bp \<open>S = S'\<close> sub wf wt by blast
qed

lemma from_date_of_new:
  "well_formed r \<Longrightarrow>
   time_key (fetch_from_date \<lparr>last_fetch_time = requestTime r, last_fetched_loggings = ids\<rparr> first_fetch)
     = request_key r"
  by (auto simp: fetch_from_date_def well_formed_def request_key_def split: option.splits)

section \<open>Evaluation at the concrete inputs\<close>

lemma replicate_numeral: "replicate (numeral k) x = x # replicate (pred_numeral k) x"
  by (simp add: numeral_eq_Suc)

lemmas strptime_eval = strptime_def date_format_with_milliseconds_def DATE_FORMAT_def
  alternatives_def d09_def d19_def lower_def found_datetime_def group_def
  py_int_def digit_val_def valid_datetime_def days_in_month_def is_leap_def replicate_numeral

lemmas strftime_eval = DATE_FORMAT_def pad2_def pad4_def digit_char_def

lemma parse_000: "strptime ''2024-01-01T00:00:00.000Z'' date_format_with_milliseconds =
    Inr \<lparr>year = 2024, month = 1, day = 1, hour = 0, minute = 0, second = 0, microsecond = 0\<rparr>"
  by (simp add: strptime_eval)

lemma parse_999: "strptime ''2024-01-01T00:00:00.999000Z'' date_format_with_milliseconds =
    Inr \<lparr>year = 2024, month = 1, day = 1, hour = 0, minute = 0, second = 0, microsecond = 999000\<rparr>"
  by (simp add: strptime_eval)

lemma parse_250: "strptime ''2024-01-01T00:00:05.250Z'' date_format_with_milliseconds =
    Inr \<lparr>year = 2024, month = 1, day = 1, hour = 0, minute = 0, second = 5, microsecond = 250000\<rparr>"
  by (simp add: strptime_eval)

lemma parse_00: "strptime ''2024-01-01T00:00:00Z'' DATE_FORMAT =
    Inr \<lparr>year = 2024, month = 1, day = 1, hour = 0, minute = 0, second = 0, microsecond = 0\<rparr>"
  by (simp add: strptime_eval)

lemma parse_05: "strptime ''2024-01-01T00:00:05Z'' DATE_FORMAT =
    Inr \<lparr>year = 2024, month = 1, day = 1, hour = 0, minute = 0, second = 5, microsecond = 0\<rparr>"
  by (simp add: strptime_eval)

lemma parse_00_ms: "strptime ''2024-01-01T00:00:00Z'' date_format_with_milliseconds = Inl ValueError"
  by (simp add: strptime_eval)

lemma normalize_ABC:
  "remove_milliseconds_from_time_of_loggings
     [wire ''A'' ''2024-01-01T00:00:00.000Z'', wire ''B'' ''2024-01-01T00:00:00.999000Z'',
      wire ''C'' ''2024-01-01T00:00:05.250Z''] = Inr [rec_A (), rec_B (), rec_C ()]"
  by (simp add: wire_def parse_000 parse_999 parse_250 strftime_eval rec_A_def rec_B_def rec_C_def)

lemma dedup_ABC:
  "remove_duplicated_activity_logging [rec_A pa, rec_B pb, rec_C pc] last_run_A
     ''2024-01-01T00:00:00Z'' = Inr ([rec_B pb, rec_C pc], {Some ''C''})"
  by (simp add: remove_duplicated_activity_logging_def last_fetched_of_def last_run_A_def
      rec_A_def rec_B_def rec_C_def parse_00 parse_05 dt_key_def)

lemma parse_750: "strptime ''2024-01-01T00:00:05.750Z'' date_format_with_milliseconds =
    Inr \<lparr>year = 2024, month = 1, day = 1, hour = 0, minute = 0, second = 5, microsecond = 750000\<rparr>"
  by (simp add: strptime_eval)

lemma parse_9000: "strptime ''2024-01-01T00:00:09.000Z'' date_format_with_milliseconds =
    Inr \<lparr>year = 2024, month = 1, day = 1, hour = 0, minute = 0, second = 9, microsecond = 0\<rparr>"
  by (simp add: strptime_eval)

lemma parse_09: "strptime ''2024-01-01T00:00:09Z'' DATE_FORMAT =
    Inr \<lparr>year = 2024, month = 1, day = 1, hour = 0, minute = 0, second = 9, microsecond = 0\<rparr>"
  by (simp add: strptime_eval)

lemma normalize_wire_ABC:
  "remove_milliseconds_from_time_of_loggings wire_ABC = Inr [rec_A (), rec_B (), rec_C ()]"
  unfolding wire_ABC_def by (rule normalize_ABC)

lemma normalize_wire_AB:
  "remove_milliseconds_from_time_of_loggings (take 2 wire_ABC) = Inr [rec_A (), rec_B ()]"
  by (simp add: wire_ABC_def wire_def parse_000 parse_999 strftime_eval rec_A_def rec_B_def)

lemma normalize_wire_CDE:
  "remove_milliseconds_from_time_of_loggings wire_CDE = Inr [rec_C (), rec_D, rec_E]"
  by (simp add: wire_CDE_def wire_def parse_250 parse_750 parse_9000 strftime_eval
      rec_C_def rec_D_def rec_E_def)

lemma keys_eval:
  "time_key ''2024-01-01T00:00:00Z'' = (2024, 1, 1, 0, 0, 0, 0)"
  "time_key ''2024-01-01T00:00:05Z'' = (2024, 1, 1, 0, 0, 5, 0)"
  "time_key ''2024-01-01T00:00:09Z'' = (2024, 1, 1, 0, 0, 9, 0)"
  by (simp_all add: time_key_def parse_00 parse_05 parse_09 dt_key_def)

lemma request_keys_eval:
  "request_key (rec_A p) = (2024, 1, 1, 0, 0, 0, 0)"
  "request_key (rec_B p) = (2024, 1, 1, 0, 0, 0, 0)"
  "request_key (rec_C p) = (2024, 1, 1, 0, 0, 5, 0)"
  "request_key rec_D = (2024, 1, 1, 0, 0, 5, 0)"
  "request_key rec_E = (2024, 1, 1, 0, 0, 9, 0)"
  by (simp_all add: request_key_def rec_A_def rec_B_def rec_C_def rec_D_def rec_E_def keys_eval)

lemma well_formed_eval:
  "well_formed (rec_A p)" "well_formed (rec_B p)" "well_formed (rec_C p)"
  "well_timed ''2024-01-01T00:00:00Z''"
  by (simp_all add: well_formed_def well_timed_def rec_A_def rec_B_def rec_C_def parse_00 parse_05)

lemma paging_ABC:
  "get_max_fetch_activity_logging vendor_log 1000 ''2024-01-01T00:00:00Z'' to_date =
     Inr ([(0, 1000), (3, 997)], wire_ABC)"
  by (simp add: get_max_fetch_activity_logging_def get_max_fetch_loop.simps vendor_log_def
      page_limit_def wire_ABC_def)

lemma paging_AB:
  "get_max_fetch_activity_logging vendor_log 2 ''2024-01-01T00:00:00Z'' to_date =
     Inr ([(0, 2)], take 2 wire_ABC)"
  by (simp add: get_max_fetch_activity_logging_def get_max_fetch_loop.simps vendor_log_def
      page_limit_def wire_ABC_def)

lemma paging_CDE:
  "get_max_fetch_activity_logging vendor_log 1000 ''2024-01-01T00:00:05Z'' to_date =
     Inr ([(0, 1000), (3, 997)], wire_CDE)"
  by (simp add: get_max_fetch_activity_logging_def get_max_fetch_loop.simps vendor_log_def
      page_limit_def wire_CDE_def)

lemma dedup_AB:
  "remove_duplicated_activity_logging [rec_A (), rec_B ()] first_run ''2024-01-01T00:00:00Z'' =
     Inr ([rec_A (), rec_B ()], {Some ''A'', Some ''B''})"
  by (auto simp: remove_duplicated_activity_logging_def last_fetched_of_def first_run_def
      rec_A_def rec_B_def parse_00 dt_key_def)

lemma dedup_CDE:
  "remove_duplicated_activity_logging [rec_C (), rec_D, rec_E] last_run_C ''2024-01-01T00:00:05Z'' =
     Inr ([rec_D, rec_E], {Some ''E''})"
  by (simp add: remove_duplicated_activity_logging_def last_fetched_of_def last_run_C_def
      rec_C_def rec_D_def rec_E_def parse_05 parse_09 dt_key_def)

lemma from_dates_eval:
  "fetch_from_date last_run_A first_fetch = ''2024-01-01T00:00:00Z''"
  "fetch_from_date last_run_C first_fetch = ''2024-01-01T00:00:05Z''"
  "fetch_from_date first_run new_year_2024 = ''2024-01-01T00:00:00Z''"
  by (simp_all add: fetch_from_date_def last_run_A_def last_run_C_def first_run_def
      new_year_2024_def strftime_eval)

lemma request_times_eval:
  "requestTime (rec_B p) = Some ''2024-01-01T00:00:00Z''"
  "requestTime (rec_C p) = Some ''2024-01-01T00:00:05Z''"
  "requestTime rec_E = Some ''2024-01-01T00:00:09Z''"
  by (simp_all add: rec_B_def rec_C_def rec_E_def)

lemma fetch_ABC:
  "fetch_activity_logging vendor_log 1000 first_fetch last_run_A now =
     Inr ([rec_B (), rec_C ()], last_run_C)"
  by (simp add: fetch_activity_logging_def from_dates_eval paging_ABC normalize_wire_ABC dedup_ABC
      last_run_C_def request_times_eval)

lemma fetch_CDE:
  "fetch_activity_logging vendor_log 1000 first_fetch last_run_C now =
     Inr ([rec_D, rec_E], last_run_E)"
  by (simp add: fetch_activity_logging_def from_dates_eval paging_CDE normalize_wire_CDE dedup_CDE
      last_run_E_def request_times_eval)

lemma fetch_AB:
  "fetch_activity_logging vendor_log 2 new_year_2024 first_run now =
     Inr ([rec_A (), rec_B ()], last_run_AB)"
  by (simp add: fetch_activity_logging_def from_dates_eval paging_AB normalize_wire_AB dedup_AB
      last_run_AB_def request_times_eval)

lemma task_ids_eval:
  "taskId (rec_A p) = Some ''A''" "taskId (rec_B p) = Some ''B''" "taskId (rec_C p) = Some ''C''"
  "taskId rec_D = Some ''D''" "taskId rec_E = Some ''E''"
  by (simp_all add: rec_A_def rec_B_def rec_C_def rec_D_def rec_E_def)

lemma boundary_pass_ABC:
  "boundary_pass [rec_A (), rec_B (), rec_C ()] (time_key ''2024-01-01T00:00:00Z'')
     (last_fetched_of last_run_A) =
   ([rec_B (), rec_C ()], (2024, 1, 1, 0, 0, 5, 0), {Some ''C''})"
  by (simp add: keys_eval request_keys_eval task_ids_eval keep_def last_fetched_of_def
      last_run_A_def)

lemma distinct_ABC: "distinct [rec_A (), rec_B (), rec_C ()]"
  by (simp add: rec_A_def rec_B_def rec_C_def)

lemma sorted_ABC: "sorted (map request_key [rec_A (), rec_B (), rec_C ()])"
  by (simp add: request_keys_eval)

lemma sorted_CDE: "sorted (map request_key [rec_C (), rec_D, rec_E])"
  by (simp add: request_keys_eval)

text \<open>
  Two equal loggings at the watermark, a third between them: \<open>list.remove\<close> deletes the
  first copy, so the later copy survives and the result is A, B where the specification's
  pass keeps B, A. The kept loggings are the same, their order is not.
\<close>

lemma later_copy_survives:
  "remove_duplicated_activity_logging [rec_B (), rec_A (), rec_B ()] first_run
     ''2024-01-01T00:00:00Z'' = Inr ([rec_A (), rec_B ()], {Some ''A'', Some ''B''})"
  "fst (boundary_pass [rec_B (), rec_A (), rec_B ()] (time_key ''2024-01-01T00:00:00Z'')
     (last_fetched_of first_run)) = [rec_B (), rec_A ()]"
  by (auto simp: remove_duplicated_activity_logging_def last_fetched_of_def first_run_def
      rec_A_def rec_B_def parse_00 dt_key_def time_key_def request_key_def keep_def)

section \<open>Parsing and rendering timestamps\<close>

lemma digit_table:
  "\<forall>r\<in>set [0, 1, 2, 3, 4, 5, 6, 7, 8, 9]. digit_val (''0123456789'' ! r) = r \<and> ''0123456789'' ! r \<noteq> CHR '' '' \<and>
      ''0123456789'' ! r \<in> set d09"
  by (simp add: digit_val_def d09_def)

lemma digit_char_props:
  "digit_val (digit_char n) = n mod 10" "digit_char n \<noteq> CHR '' ''" "digit_char n \<in> set d09"
proof -
  have "n mod 10 < 10" by simp
  then have "n mod 10 \<in> set [0, 1, 2, 3, 4, 5, 6, 7, 8, 9]" by (simp del: mod_less_divisor) arith
  with digit_table show "digit_val (digit_char n) = n mod 10" "digit_char n \<noteq> CHR '' ''"
    "digit_char n \<in> set d09"
    unfolding digit_char_def by blast+
qed

lemma py_int_pad2: "n \<le> 99 \<Longrightarrow> py_int (pad2 n) = n"
  by (simp add: py_int_def pad2_def digit_char_props)

lemma decimal4:
  "(n::nat) \<le> 9999 \<Longrightarrow>
     1000 * (n div 1000) + 100 * (n div 100 mod 10) + 10 * (n div 10 mod 10) + n mod 10 = n"
proof -
  have e2: "n div 100 = n div 10 div 10" by (simp add: div_mult2_eq[symmetric])
  have e3: "n div 1000 = n div 100 div 10" by (simp add: div_mult2_eq[symmetric])
  have 1: "n = 10 * (n div 10) + n mod 10" by simp
  have 2: "n div 10 = 10 * (n div 100) + n div 10 mod 10" unfolding e2 by simp
  have 3: "n div 100 = 10 * (n div 1000) + n div 100 mod 10" unfolding e3 by simp
  from 1 2 3 show ?thesis by linarith
qed

lemma py_int_pad4: "n \<le> 9999 \<Longrightarrow> py_int (pad4 n) = n"
  by (simp add: py_int_def pad4_def digit_char_props decimal4)

lemma match_year:
  "regex_match (Dir_Y # ds) (pad4 y @ rest) =
     map (\<lambda>(g, r). ((Dir_Y, pad4 y) # g, r)) (regex_match ds rest)"
  by (simp add: alternatives_def pad4_def digit_char_props)

lemmas match_eval = alternatives_def pad2_def digit_char_def d09_def d19_def lower_def

lemma by_digits:
  assumes table: "\<forall>a\<in>set A. \<forall>b\<in>set [0, 1, 2, 3, 4, 5, 6, 7, 8, 9]. lo \<le> 10 * a + b \<and> 10 * a + b \<le> hi \<longrightarrow> P (10 * a + b)"
    and range: "lo \<le> n" "n \<le> hi" and tens: "n div 10 \<in> set A"
  shows "P (n::nat)"
proof -
  have "n mod 10 < 10" by simp
  then have "n mod 10 \<in> set [0, 1, 2, 3, 4, 5, 6, 7, 8, 9]" by (simp del: mod_less_divisor) arith
  moreover have "10 * (n div 10) + n mod 10 = n" by simp
  ultimately show ?thesis using table range tens by metis
qed

lemma match_month_table:
  "\<forall>a\<in>set [0, 1]. \<forall>b\<in>set [0, 1, 2, 3, 4, 5, 6, 7, 8, 9]. 1 \<le> 10 * a + b \<and> 10 * a + b \<le> 12 \<longrightarrow>
      regex_match (Dir_m # Lit CHR ''-'' # ds) (pad2 (10 * a + b) @ CHR ''-'' # rest) =
     map (\<lambda>(g, r). ((Dir_m, pad2 (10 * a + b)) # g, r)) (regex_match ds rest)"
  by (simp add: match_eval)

lemma match_day_table:
  "\<forall>a\<in>set [0, 1, 2, 3]. \<forall>b\<in>set [0, 1, 2, 3, 4, 5, 6, 7, 8, 9]. 1 \<le> 10 * a + b \<and> 10 * a + b \<le> 31 \<longrightarrow>
      regex_match (Dir_d # Lit CHR ''T'' # ds) (pad2 (10 * a + b) @ CHR ''T'' # rest) =
     map (\<lambda>(g, r). ((Dir_d, pad2 (10 * a + b)) # g, r)) (regex_match ds rest)"
  by (simp add: match_eval)

lemma match_hour_table:
  "\<forall>a\<in>set [0, 1, 2]. \<forall>b\<in>set [0, 1, 2, 3, 4, 5, 6, 7, 8, 9]. 0 \<le> 10 * a + b \<and> 10 * a + b \<le> 23 \<longrightarrow>
      regex_match (Dir_H # Lit CHR '':'' # ds) (pad2 (10 * a + b) @ CHR '':'' # rest) =
     map (\<lambda>(g, r). ((Dir_H, pad2 (10 * a + b)) # g, r)) (regex_match ds rest)"
  by (simp add: match_eval)

lemma match_minute_table:
  "\<forall>a\<in>set [0, 1, 2, 3, 4, 5]. \<forall>b\<in>set [0, 1, 2, 3, 4, 5, 6, 7, 8, 9]. 0 \<le> 10 * a + b \<and> 10 * a + b \<le> 59 \<longrightarrow>
      regex_match (Dir_M # Lit CHR '':'' # ds) (pad2 (10 * a + b) @ CHR '':'' # rest) =
     map (\<lambda>(g, r). ((Dir_M, pad2 (10 * a + b)) # g, r)) (regex_match ds rest)"
  by (simp add: match_eval)

lemma match_second_table:
  "\<forall>a\<in>set [0, 1, 2, 3, 4, 5]. \<forall>b\<in>set [0, 1, 2, 3, 4, 5, 6, 7, 8, 9]. 0 \<le> 10 * a + b \<and> 10 * a + b \<le> 59 \<longrightarrow>
      regex_match (Dir_S # Lit CHR ''Z'' # ds) (pad2 (10 * a + b) @ CHR ''Z'' # rest) =
     map (\<lambda>(g, r). ((Dir_S, pad2 (10 * a + b)) # g, r)) (regex_match ds rest)"
  by (simp add: match_eval)

lemma days_in_month_le: "days_in_month y m \<le> 31"
  by (simp add: days_in_month_def)

lemma match_date_format:
  assumes "valid_datetime t"
  shows "regex_match DATE_FORMAT (strftime t DATE_FORMAT) =
     [([(Dir_Y, pad4 (year t)), (Dir_m, pad2 (month t)), (Dir_d, pad2 (day t)),
        (Dir_H, pad2 (hour t)), (Dir_M, pad2 (minute t)), (Dir_S, pad2 (second t))], [])]"
proof -
  from assms have "1 \<le> month t" "month t \<le> 12" by (simp_all add: valid_datetime_def)
  moreover from this have "month t div 10 \<in> set [0, 1]" by simp arith
  ultimately have m: "regex_match (Dir_m # Lit CHR ''-'' # ds) (pad2 (month t) @ CHR ''-'' # rest) =
     map (\<lambda>(g, r). ((Dir_m, pad2 (month t)) # g, r)) (regex_match ds rest)" for ds rest
    by (rule by_digits[OF match_month_table])
  from assms days_in_month_le[of "year t" "month t"] have "1 \<le> day t" "day t \<le> 31"
    by (simp_all add: valid_datetime_def)
  moreover from this have "day t div 10 \<in> set [0, 1, 2, 3]" by simp arith
  ultimately have d: "regex_match (Dir_d # Lit CHR ''T'' # ds) (pad2 (day t) @ CHR ''T'' # rest) =
     map (\<lambda>(g, r). ((Dir_d, pad2 (day t)) # g, r)) (regex_match ds rest)" for ds rest
    by (rule by_digits[OF match_day_table])
  from assms have "0 \<le> hour t" "hour t \<le> 23" by (simp_all add: valid_datetime_def)
  moreover from this have "hour t div 10 \<in> set [0, 1, 2]" by simp arith
  ultimately have h: "regex_match (Dir_H # Lit CHR '':'' # ds) (pad2 (hour t) @ CHR '':'' # rest) =
     map (\<lambda>(g, r). ((Dir_H, pad2 (hour t)) # g, r)) (regex_match ds rest)" for ds rest
    by (rule by_digits[OF match_hour_table])
  from assms have "0 \<le> minute t" "minute t \<le> 59" by (simp_all add: valid_datetime_def)
  moreover from this have "minute t div 10 \<in> set [0, 1, 2, 3, 4, 5]" by simp arith
  ultimately have mi: "regex_match (Dir_M # Lit CHR '':'' # ds) (pad2 (minute t) @ CHR '':'' # rest) =
     map (\<lambda>(g, r). ((Dir_M, pad2 (minute t)) # g, r)) (regex_match ds rest)" for ds rest
    by (rule by_digits[OF match_minute_table])
  from assms have "0 \<le> second t" "second t \<le> 59" by (simp_all add: valid_datetime_def)
  moreover from this have "second t div 10 \<in> set [0, 1, 2, 3, 4, 5]" by simp arith
  ultimately have sec: "regex_match (Dir_S # Lit CHR ''Z'' # ds) (pad2 (second t) @ CHR ''Z'' # rest) =
     map (\<lambda>(g, r). ((Dir_S, pad2 (second t)) # g, r)) (regex_match ds rest)" for ds rest
    by (rule by_digits[OF match_second_table])
  show ?thesis
    unfolding DATE_FORMAT_def strftime.simps
    by (simp only: match_year m d h mi sec regex_match.simps(1,2) list.case list.map
        prod.case simp_thms if_True)
qed

lemma strptime_strftime:
  assumes "valid_datetime t"
  shows "strptime (strftime t DATE_FORMAT) DATE_FORMAT = Inr (t\<lparr>microsecond := 0\<rparr>)"
proof -
  let ?g = "[(Dir_Y, pad4 (year t)), (Dir_m, pad2 (month t)), (Dir_d, pad2 (day t)),
        (Dir_H, pad2 (hour t)), (Dir_M, pad2 (minute t)), (Dir_S, pad2 (second t))]"
  from assms days_in_month_le[of "year t" "month t"]
  have small: "year t \<le> 9999" "month t \<le> 99" "day t \<le> 99" "hour t \<le> 99" "minute t \<le> 99"
    "second t \<le> 99"
    by (simp_all add: valid_datetime_def)
  have found: "found_datetime ?g = t\<lparr>microsecond := 0\<rparr>"
    using small by (simp add: found_datetime_def group_def py_int_pad4 py_int_pad2)
  moreover from assms have "valid_datetime (t\<lparr>microsecond := 0\<rparr>)"
    by (simp add: valid_datetime_def)
  ultimately show ?thesis
    by (simp add: strptime_def match_date_format[OF assms])
qed

lemma strptime_valid: "strptime s fmt = Inr t \<Longrightarrow> valid_datetime t"
  by (auto simp: strptime_def split: list.splits prod.splits if_splits)

lemma has_fractionI:
  assumes "s = pre @ CHR ''.'' # frac @ [z]" "frac \<noteq> []" "length frac \<le> 6"
    "set frac \<subseteq> set d09" "lower z = CHR ''z''"
  shows "has_fraction s"
proof -
  have r: "rev s = z # rev frac @ CHR ''.'' # rev pre" using assms(1) by simp
  have "CHR ''.'' \<notin> set d09" by (simp add: d09_def)
  with assms(4) have tw: "takeWhile (\<lambda>c. c \<in> set d09) (rev frac @ CHR ''.'' # rev pre) = rev frac"
    by (subst takeWhile_append2) auto
  show ?thesis
    unfolding has_fraction_def r using assms(2,3,5) by (simp add: tw Let_def Suc_le_eq)
qed

lemma has_fraction_dot: "has_fraction s \<Longrightarrow> CHR ''.'' \<in> set s"
proof -
  assume h: "has_fraction s"
  then obtain z r where r: "rev s = z # r" by (auto simp: has_fraction_def split: list.splits)
  with h obtain cs where "drop (length (takeWhile (\<lambda>c. c \<in> set d09) r)) r = CHR ''.'' # cs"
    by (auto simp: has_fraction_def Let_def split: list.splits)
  then have "CHR ''.'' \<in> set (drop (length (takeWhile (\<lambda>c. c \<in> set d09) r)) r)" by simp
  then have "CHR ''.'' \<in> set r" by (rule in_set_dropD)
  with r have "CHR ''.'' \<in> set (rev s)" by simp
  then show ?thesis by simp
qed

text \<open>What a match consumes.\<close>

lemma match_seq_consumes:
  "match_seq clss s = Some (m, r) \<Longrightarrow>
   s = m @ r \<and> length m = length clss \<and> set m \<subseteq> \<Union> (set ` set clss)"
proof (induction clss s arbitrary: m r rule: match_seq.induct)
  case (1 s)
  then show ?case by simp
next
  case (2 cls clss)
  then show ?case by simp
next
  case (3 cls clss x xs)
  from "3.prems" obtain m' where x: "x \<in> set cls" and sub: "match_seq clss xs = Some (m', r)"
    and m: "m = x # m'"
    by (auto split: if_splits option.splits)
  from "3.IH"[OF x sub] x m show ?case by auto
qed

lemma alternatives_consume:
  "(m, r) \<in> set (alternatives d s) \<Longrightarrow>
   \<exists>alt\<in>set (directive_regex d). s = m @ r \<and> length m = length alt \<and> set m \<subseteq> \<Union> (set ` set alt)"
proof -
  assume "(m, r) \<in> set (alternatives d s)"
  then obtain alt where "alt \<in> set (directive_regex d)" "match_seq alt s = Some (m, r)"
    by (auto simp: alternatives_def List.map_filter_def)
  with match_seq_consumes[of alt s m r] show ?thesis by blast
qed

lemma regex_match_field:
  "\<not> is_lit d \<Longrightarrow> regex_match (d # ds) s =
     concat (map (\<lambda>(m, rest). map (\<lambda>(g, r). ((d, m) # g, r)) (regex_match ds rest))
       (alternatives d s))"
  by (cases d) (simp_all add: is_lit_def)

lemma regex_match_LitE:
  assumes "(g, r) \<in> set (regex_match (Lit c # ds) s)"
  obtains x xs where "s = x # xs" "lower x = lower c" "(g, r) \<in> set (regex_match ds xs)"
  using assms by (cases s) (auto split: if_splits)

lemma regex_match_fieldE:
  assumes "(g, r) \<in> set (regex_match (d # ds) s)" "\<not> is_lit d"
  obtains m rest g' where "(m, rest) \<in> set (alternatives d s)"
    "(g', r) \<in> set (regex_match ds rest)" "g = (d, m) # g'"
  using assms by (auto simp: regex_match_field)

lemma regex_match_split:
  "(g, r) \<in> set (regex_match (ds1 @ ds2) s) \<Longrightarrow>
   \<exists>g1 g2 mid. (g1, mid) \<in> set (regex_match ds1 s) \<and> (g2, r) \<in> set (regex_match ds2 mid)"
proof (induction ds1 arbitrary: g s)
  case Nil
  then show ?case by auto
next
  case (Cons d ds1)
  show ?case
  proof (cases "is_lit d")
    case True
    then obtain c where Lit: "d = Lit c" by (cases d) (simp_all add: is_lit_def)
    with Cons.prems obtain x xs where s: "s = x # xs" "lower x = lower c"
      and sub: "(g, r) \<in> set (regex_match (ds1 @ ds2) xs)"
      by (auto split: list.splits if_splits)
    from Cons.IH[OF sub] s Lit show ?thesis by auto
  next
    case nl: False
    from Cons.prems obtain m rest g' where alt: "(m, rest) \<in> set (alternatives d s)"
      and sub: "(g', r) \<in> set (regex_match (ds1 @ ds2) rest)"
      by (auto simp: regex_match_field[OF nl])
    from Cons.IH[OF sub] obtain g1 g2 mid where
      "(g1, mid) \<in> set (regex_match ds1 rest)" "(g2, r) \<in> set (regex_match ds2 mid)" by blast
    with alt have "((d, m) # g1, mid) \<in> set (regex_match (d # ds1) s)"
      by (force simp: regex_match_field[OF nl])
    with \<open>(g2, r) \<in> set (regex_match ds2 mid)\<close> show ?thesis by blast
  qed
qed

lemma regex_match_chars:
  "(g, r) \<in> set (regex_match ds s) \<Longrightarrow>
   \<exists>c. s = c @ r \<and> (\<forall>x\<in>set c. \<exists>d\<in>set ds. x \<in> dir_chars d)"
proof (induction ds arbitrary: g s)
  case Nil
  then show ?case by simp
next
  case (Cons d ds)
  show ?case
  proof (cases "is_lit d")
    case True
    then obtain l where Lit: "d = Lit l" by (cases d) (simp_all add: is_lit_def)
    with Cons.prems obtain x xs where s: "s = x # xs" "lower x = lower l"
      and sub: "(g, r) \<in> set (regex_match ds xs)"
      by (auto split: list.splits if_splits)
    from Cons.IH[OF sub] obtain c where c: "xs = c @ r" "\<forall>x\<in>set c. \<exists>d\<in>set ds. x \<in> dir_chars d"
      by blast
    from s(2) Lit have "x \<in> dir_chars d" by (simp add: dir_chars_def)
    with c s(1) have "s = (x # c) @ r \<and> (\<forall>y\<in>set (x # c). \<exists>d'\<in>set (d # ds). y \<in> dir_chars d')"
      by auto
    then show ?thesis by blast
  next
    case nl: False
    from Cons.prems obtain m rest g' where alt: "(m, rest) \<in> set (alternatives d s)"
      and sub: "(g', r) \<in> set (regex_match ds rest)"
      by (auto simp: regex_match_field[OF nl])
    from Cons.IH[OF sub] obtain c where c: "rest = c @ r" "\<forall>x\<in>set c. \<exists>d\<in>set ds. x \<in> dir_chars d"
      by blast
    from alternatives_consume[OF alt] obtain alt' where a: "alt' \<in> set (directive_regex d)"
      "s = m @ rest" "set m \<subseteq> \<Union> (set ` set alt')" by blast
    from a(1,3) nl have "\<forall>x\<in>set m. x \<in> dir_chars d"
      by (cases d) (auto simp: dir_chars_def is_lit_def)
    with c a(2) have "s = (m @ c) @ r \<and> (\<forall>y\<in>set (m @ c). \<exists>d'\<in>set (d # ds). y \<in> dir_chars d')"
      by auto
    then show ?thesis by blast
  qed
qed

lemma strptime_matchE:
  assumes "strptime s fmt = Inr t"
  obtains g where "(g, []) \<in> set (regex_match fmt s)"
  using assms by (auto simp: strptime_def split: list.splits prod.splits if_splits)

lemma strptime_error: "strptime s fmt = Inl e \<Longrightarrow> e = ValueError"
  by (auto simp: strptime_def split: list.splits prod.splits if_splits)

lemma date_format_no_dot: "\<forall>d\<in>set DATE_FORMAT. CHR ''.'' \<notin> dir_chars d"
  by (simp add: DATE_FORMAT_def dir_chars_def d09_def d19_def lower_def)

lemma whole_second_no_fraction:
  assumes "strptime s DATE_FORMAT = Inr t"
  shows "\<not> has_fraction s"
proof
  assume "has_fraction s"
  then have dot: "CHR ''.'' \<in> set s" by (rule has_fraction_dot)
  from assms obtain g where "(g, []) \<in> set (regex_match DATE_FORMAT s)" by (rule strptime_matchE)
  from regex_match_chars[OF this] have "\<forall>x\<in>set s. \<exists>d\<in>set DATE_FORMAT. x \<in> dir_chars d"
    by auto
  with dot date_format_no_dot show False by blast
qed

lemma lower_dot: "lower x = CHR ''.'' \<Longrightarrow> x = CHR ''.''"
  by (auto simp: lower_def split: if_splits)

lemma fraction_tail:
  assumes "(g, []) \<in> set (regex_match [Lit CHR ''.'', Dir_f, Lit CHR ''Z''] mid)"
  shows "\<exists>frac z. mid = CHR ''.'' # frac @ [z] \<and> frac \<noteq> [] \<and> length frac \<le> 6 \<and>
           set frac \<subseteq> set d09 \<and> lower z = CHR ''z''"
proof -
  from assms obtain x xs where mid: "mid = x # xs" and x: "lower x = lower CHR ''.''"
    and sub: "(g, []) \<in> set (regex_match [Dir_f, Lit CHR ''Z''] xs)"
    by (rule regex_match_LitE)
  from x have "lower x = CHR ''.''" by (simp add: lower_def)
  then have xdot: "x = CHR ''.''" by (rule lower_dot)
  have "\<not> is_lit Dir_f" by (simp add: is_lit_def)
  with sub obtain m rest g' where alt: "(m, rest) \<in> set (alternatives Dir_f xs)"
    and z: "(g', []) \<in> set (regex_match [Lit CHR ''Z''] rest)"
    by (rule regex_match_fieldE)
  from z obtain c cs where rest: "rest = c # cs" and c: "lower c = lower CHR ''Z''"
    and "(g', []) \<in> set (regex_match [] cs)"
    by (rule regex_match_LitE)
  then have rest: "rest = [c]" by simp
  from c have cz: "lower c = CHR ''z''" by (simp add: lower_def)
  from alternatives_consume[OF alt] obtain alt' where a: "alt' \<in> set (directive_regex Dir_f)"
    "xs = m @ rest" "length m = length alt'" "set m \<subseteq> \<Union> (set ` set alt')" by blast
  from a(1,3,4) have "m \<noteq> [] \<and> length m \<le> 6 \<and> set m \<subseteq> set d09"
    by auto
  with mid xdot a(2) rest cz show ?thesis by auto
qed

lemma milliseconds_format_split:
  "date_format_with_milliseconds =
     [Dir_Y, Lit CHR ''-'', Dir_m, Lit CHR ''-'', Dir_d, Lit CHR ''T'',
      Dir_H, Lit CHR '':'', Dir_M, Lit CHR '':'', Dir_S] @ [Lit CHR ''.'', Dir_f, Lit CHR ''Z'']"
  by (simp add: date_format_with_milliseconds_def)

lemma milliseconds_has_fraction:
  assumes "strptime s date_format_with_milliseconds = Inr t"
  shows "has_fraction s"
proof -
  from assms obtain g where "(g, []) \<in> set (regex_match date_format_with_milliseconds s)"
    by (rule strptime_matchE)
  then obtain g1 g2 mid where
    pre: "(g1, mid) \<in> set (regex_match [Dir_Y, Lit CHR ''-'', Dir_m, Lit CHR ''-'', Dir_d,
        Lit CHR ''T'', Dir_H, Lit CHR '':'', Dir_M, Lit CHR '':'', Dir_S] s)"
    and tail: "(g2, []) \<in> set (regex_match [Lit CHR ''.'', Dir_f, Lit CHR ''Z''] mid)"
    unfolding milliseconds_format_split by (blast dest: regex_match_split)
  from regex_match_chars[OF pre] obtain c where c: "s = c @ mid" by blast
  from fraction_tail[OF tail] obtain frac z where
    "mid = CHR ''.'' # frac @ [z]" "frac \<noteq> []" "length frac \<le> 6" "set frac \<subseteq> set d09"
    "lower z = CHR ''z''" by blast
  with c show ?thesis by (intro has_fractionI[of s c frac z]) auto
qed

lemma no_fraction_raises:
  "\<not> has_fraction s \<Longrightarrow> strptime s date_format_with_milliseconds = Inl ValueError"
  by (cases "strptime s date_format_with_milliseconds")
    (auto dest: strptime_error milliseconds_has_fraction)

lemma remove_milliseconds_raises:
  "r \<in> set al \<Longrightarrow> requestTime r = Some s \<Longrightarrow>
   strptime s date_format_with_milliseconds = Inl e0 \<Longrightarrow>
   \<exists>e. remove_milliseconds_from_time_of_loggings al = Inl e"
  by (induction al) (auto split: option.splits sum.splits)

lemma remove_milliseconds_first_raises:
  "requestTime r = Some s \<Longrightarrow> strptime s date_format_with_milliseconds = Inl e \<Longrightarrow>
   remove_milliseconds_from_time_of_loggings (r # al) = Inl e"
  by simp

lemma remove_milliseconds_truncated:
  "remove_milliseconds_from_time_of_loggings al = Inr al' \<Longrightarrow> list_all2 truncated al al'"
proof (induction al arbitrary: al')
  case Nil
  then show ?case by simp
next
  case (Cons r al)
  from Cons.prems obtain s t rest' where r: "requestTime r = Some s"
    "strptime s date_format_with_milliseconds = Inr t"
    and rest: "remove_milliseconds_from_time_of_loggings al = Inr rest'"
    and al': "al' = r\<lparr>requestTime := Some (strftime t DATE_FORMAT)\<rparr> # rest'"
    by (auto split: option.splits sum.splits)
  from strptime_valid[OF r(2)] have "strptime (strftime t DATE_FORMAT) DATE_FORMAT =
      Inr (t\<lparr>microsecond := 0\<rparr>)"
    by (rule strptime_strftime)
  with r have "truncated r (r\<lparr>requestTime := Some (strftime t DATE_FORMAT)\<rparr>)"
    by (simp add: truncated_def)
  with Cons.IH[OF rest] al' show ?case by simp
qed

lemma paging_whole_seconds:
  "get_max_fetch_activity_logging vendor_whole_seconds 1000 from_date to_date =
     Inr ([(0, 1000), (3, 997)], [rec_A (), rec_B (), rec_C ()])"
  by (simp add: get_max_fetch_activity_logging_def get_max_fetch_loop.simps
      vendor_whole_seconds_def page_limit_def)

section \<open>Claims\<close>

text \<open>
  C1. The boundary pass of the source agrees with the pass as the specification words it
  (\<open>boundary_pass\<close>): on loggings whose \<open>requestTime\<close> parses, from a \<open>time_to_check\<close> that
  parses and the ids of the last run, \<open>remove_duplicated_activity_logging\<close> returns; its
  final ids are those of the specification's pass; it keeps the same loggings, each as
  often; and it keeps them in the same order when no two loggings of the input are
  equal (\<open>list.remove\<close> deletes the first logging equal to the duplicate, which then is
  the duplicate itself; \<open>later_copy_survives\<close> shows two equal loggings changing
  places). When no logging is strictly later than \<open>time_to_check\<close>, the
  final ids are the ids of the last run together with the ids of all the loggings: the set
  is never reset.
\<close>

theorem C1_boundary_pass:
  assumes "\<forall>r\<in>set activity_loggings. well_formed r" and "well_timed time_to_check"
  shows "\<exists>kept. remove_duplicated_activity_logging activity_loggings last_run time_to_check =
           Inr (kept, snd (snd (boundary_pass activity_loggings (time_key time_to_check)
                                  (last_fetched_of last_run)))) \<and>
         mset kept = mset (fst (boundary_pass activity_loggings (time_key time_to_check)
                                  (last_fetched_of last_run))) \<and>
         (distinct activity_loggings \<longrightarrow>
            kept = fst (boundary_pass activity_loggings (time_key time_to_check)
                          (last_fetched_of last_run))) \<and>
         ((\<forall>r\<in>set activity_loggings. request_key r \<le> time_key time_to_check) \<longrightarrow>
            snd (snd (boundary_pass activity_loggings (time_key time_to_check)
                        (last_fetched_of last_run))) =
              last_fetched_of last_run \<union> taskId ` set activity_loggings)"
proof -
  let ?bp = "boundary_pass activity_loggings (time_key time_to_check) (last_fetched_of last_run)"
  from loop_refines_mset[OF assms, of activity_loggings "[]" "last_fetched_of last_run"]
  obtain al' ttc' where run:
    "remove_duplicated_loop activity_loggings activity_loggings time_to_check
       (last_fetched_of last_run) = Inr (al', ttc', snd (snd ?bp))"
    and ms: "mset al' = mset (fst ?bp)"
    by auto
  have "distinct activity_loggings \<longrightarrow> al' = fst ?bp"
    using loop_refines_list[of activity_loggings "[]" time_to_check "last_fetched_of last_run"
        al' ttc' "snd (snd ?bp)"] run assms by simp
  moreover have "(\<forall>r\<in>set activity_loggings. request_key r \<le> time_key time_to_check) \<longrightarrow>
      snd (snd ?bp) = last_fetched_of last_run \<union> taskId ` set activity_loggings"
  proof
    assume le: "\<forall>r\<in>set activity_loggings. request_key r \<le> time_key time_to_check"
    obtain k t' S where bp: "?bp = (k, t', S)" by (cases ?bp) auto
    from pass_never_exceeds[OF le, of "last_fetched_of last_run"] bp
    have "t' = time_key time_to_check" by simp
    from pass_no_advance[OF bp this] bp
    show "snd (snd ?bp) = last_fetched_of last_run \<union> taskId ` set activity_loggings" by simp
  qed
  ultimately show ?thesis using run ms
    by (simp add: remove_duplicated_activity_logging_def)
qed

theorem C1_witness:
  "remove_duplicated_activity_logging [rec_A (), rec_B (), rec_C ()] last_run_A
     ''2024-01-01T00:00:00Z'' = Inr ([rec_B (), rec_C ()], {Some ''C''})"
proof -
  have wf: "\<forall>r\<in>set [rec_A (), rec_B (), rec_C ()]. well_formed r"
    by (simp add: well_formed_eval)
  from C1_boundary_pass[OF wf well_formed_eval(4), of last_run_A, unfolded boundary_pass_ABC]
  obtain kept where
    run: "remove_duplicated_activity_logging [rec_A (), rec_B (), rec_C ()] last_run_A
       ''2024-01-01T00:00:00Z'' = Inr (kept, {Some ''C''})"
    and same: "distinct [rec_A (), rec_B (), rec_C ()] \<longrightarrow> kept = [rec_B (), rec_C ()]"
    unfolding fst_conv snd_conv by blast
  from same distinct_ABC have "kept = [rec_B (), rec_C ()]" by blast
  with run show ?thesis by simp
qed

text \<open>
  C2. No duplicate delivery: two invocations in sequence, the second from the last run the
  first returned; the normalised loggings of each in non-decreasing order of
  \<open>requestTime\<close>, and those of the second not before the watermark. Then no logging the
  first returned and logging the second returned have both the same \<open>requestTime\<close> and the
  same id.
\<close>

theorem C2_no_duplicate_delivery:
  assumes run1: "fetch_activity_logging client max_fetch first_fetch last_run now1 = Inr (kept1, last_run1)"
    and paged1: "get_max_fetch_activity_logging client max_fetch (fetch_from_date last_run first_fetch)
             (strftime now1 DATE_FORMAT) = Inr (requests1, fetched1)"
    and norm1: "remove_milliseconds_from_time_of_loggings fetched1 = Inr normalized1"
    and srt1: "sorted (map request_key normalized1)"
    and run2: "fetch_activity_logging client max_fetch first_fetch last_run1 now2 = Inr (kept2, last_run2)"
    and paged2: "get_max_fetch_activity_logging client max_fetch (fetch_from_date last_run1 first_fetch)
             (strftime now2 DATE_FORMAT) = Inr (requests2, fetched2)"
    and norm2: "remove_milliseconds_from_time_of_loggings fetched2 = Inr normalized2"
    and srt2: "sorted (map request_key normalized2)"
    and ge2: "\<forall>r\<in>set normalized2. time_key (fetch_from_date last_run1 first_fetch) \<le> request_key r"
  shows "\<forall>r1\<in>set kept1. \<forall>r2\<in>set kept2. request_key r1 = request_key r2 \<longrightarrow> taskId r1 \<noteq> taskId r2"
proof (intro ballI impI)
  fix r1 r2
  assume r1: "r1 \<in> set kept1" and r2: "r2 \<in> set kept2" and same: "request_key r1 = request_key r2"
  let ?from1 = "fetch_from_date last_run first_fetch"
  let ?from2 = "fetch_from_date last_run1 first_fetch"
  from r1 have ne1: "kept1 \<noteq> []" by auto
  from r2 have ne2: "kept2 \<noteq> []" by auto
  from run1 paged1 norm1 ne1 obtain S1 where
    dedup1: "remove_duplicated_activity_logging normalized1 last_run ?from1 = Inr (kept1, S1)"
    and new1: "last_run1 =
        \<lparr>last_fetch_time = requestTime (last kept1), last_fetched_loggings = Some S1\<rparr>"
    by (auto elim!: fetch_InrE)
  from run2 paged2 norm2 obtain S2 where
    dedup2: "remove_duplicated_activity_logging normalized2 last_run1 ?from2 = Inr (kept2, S2)"
    by (auto elim!: fetch_InrE)
  from dedup1 srt1 ne1 obtain k1 t1 where
    bp1: "boundary_pass normalized1 (time_key ?from1) (last_fetched_of last_run) = (k1, t1, S1)"
    and sets1: "set kept1 = set k1" "set kept1 \<subseteq> set normalized1"
    and wf1: "\<forall>r\<in>set normalized1. well_formed r"
    and top1: "\<forall>r\<in>set kept1. request_key r \<le> request_key (last kept1)"
    by (rule dedup_summary)
  from dedup2 srt2 ne2 obtain k2 t2 where
    bp2: "boundary_pass normalized2 (time_key ?from2) (last_fetched_of last_run1) = (k2, t2, S2)"
    and sets2: "set kept2 = set k2" "set kept2 \<subseteq> set normalized2"
    by (rule dedup_summary)
  from ne1 sets1 have lastin: "last kept1 \<in> set normalized1" by auto
  with wf1 have key2: "time_key ?from2 = request_key (last kept1)"
    unfolding new1 by (intro from_date_of_new) auto
  have ids1: "last_fetched_of last_run1 = S1"
    unfolding new1 by (simp add: last_fetched_of_def)
  from top1 r1 have le1: "request_key r1 \<le> request_key (last kept1)" by simp
  from ge2 r2 sets2 key2 have ge: "request_key (last kept1) \<le> request_key r2" by auto
  with le1 same have at: "request_key r1 = request_key (last kept1)" by simp
  \<comment> \<open>the first invocation recorded the id of \<open>r1\<close>\<close>
  from pass_bound[OF bp1] have le: "time_key ?from1 \<le> t1"
    and up: "\<forall>r\<in>set normalized1. request_key r \<le> t1" by auto
  have in1: "taskId r1 \<in> S1"
  proof (cases "time_key ?from1 < t1")
    case True
    from pass_advance_kept[OF bp1 True] sets1 obtain x where
      "x \<in> set kept1" "request_key x = t1" by auto
    with top1 up lastin have "request_key (last kept1) = t1"
      by (metis order.antisym)
    with at have "request_key r1 = t1" by simp
    from pass_ids_at_watermark[OF bp1 _ this] r1 sets1 show ?thesis by auto
  next
    case False
    with le have "t1 = time_key ?from1" by simp
    from pass_no_advance[OF bp1 this] r1 sets1 show ?thesis by auto
  qed
  \<comment> \<open>the second invocation kept \<open>r2\<close>, so its id was not recorded\<close>
  from r2 sets2 have "r2 \<in> set k2" by simp
  moreover from same at key2 have "request_key r2 \<le> time_key ?from2" by simp
  ultimately have "taskId r2 \<notin> S1"
    using pass_kept_unseen[OF bp2 srt2] ids1 by simp
  with in1 show "taskId r1 \<noteq> taskId r2" by auto
qed

theorem C2_witness:
  "fetch_activity_logging vendor_log 1000 new_year_2024 last_run_A noon_2024 =
     Inr ([rec_B (), rec_C ()], last_run_C) \<and>
   fetch_activity_logging vendor_log 1000 new_year_2024 last_run_C noon_2024 =
     Inr ([rec_D, rec_E], last_run_E) \<and>
   request_key (rec_C ()) = request_key rec_D \<and> taskId (rec_C ()) \<noteq> taskId rec_D"
proof -
  have paged1: "get_max_fetch_activity_logging vendor_log 1000
      (fetch_from_date last_run_A new_year_2024) (strftime noon_2024 DATE_FORMAT) =
      Inr ([(0, 1000), (3, 997)], wire_ABC)"
    by (simp add: from_dates_eval paging_ABC)
  have paged2: "get_max_fetch_activity_logging vendor_log 1000
      (fetch_from_date last_run_C new_year_2024) (strftime noon_2024 DATE_FORMAT) =
      Inr ([(0, 1000), (3, 997)], wire_CDE)"
    by (simp add: from_dates_eval paging_CDE)
  have ge2: "\<forall>r\<in>set [rec_C (), rec_D, rec_E].
      time_key (fetch_from_date last_run_C new_year_2024) \<le> request_key r"
    by (simp add: from_dates_eval keys_eval request_keys_eval)
  from C2_no_duplicate_delivery[OF fetch_ABC paged1 normalize_wire_ABC sorted_ABC
      fetch_CDE paged2 normalize_wire_CDE sorted_CDE ge2]
  have "request_key (rec_C ()) = request_key rec_D \<longrightarrow> taskId (rec_C ()) \<noteq> taskId rec_D"
    by simp
  moreover have "request_key (rec_C ()) = request_key rec_D"
    by (simp add: request_keys_eval)
  ultimately show ?thesis
    using fetch_ABC[of new_year_2024 noon_2024] fetch_CDE[of new_year_2024 noon_2024] by simp
qed

text \<open>
  C3. The concrete boundary scenario: the last run is \<open>last_run_A\<close> (watermark
  2024-01-01T00:00:00Z, ids A); the vendor's loggings normalise to A and B at
  2024-01-01T00:00:00Z and C at 2024-01-01T00:00:05Z, in that order, with any payloads.
  Then \<open>fetch_activity_logging\<close> returns B and C, and the new last run \<open>last_run_C\<close>
  (watermark 2024-01-01T00:00:05Z, ids C).
\<close>

theorem C3_boundary_scenario:
  assumes "get_max_fetch_activity_logging client max_fetch ''2024-01-01T00:00:00Z''
             (strftime now DATE_FORMAT) = Inr (requests, fetched)"
    and "remove_milliseconds_from_time_of_loggings fetched = Inr [rec_A pa, rec_B pb, rec_C pc]"
  shows "fetch_activity_logging client max_fetch first_fetch last_run_A now =
           Inr ([rec_B pb, rec_C pc], last_run_C)"
proof -
  have "fetch_from_date last_run_A first_fetch = ''2024-01-01T00:00:00Z''"
    by (simp add: fetch_from_date_def last_run_A_def)
  with assms dedup_ABC[of pa pb pc] show ?thesis
    by (simp add: fetch_activity_logging_def last_run_C_def rec_C_def)
qed

theorem C3_witness:
  "fetch_activity_logging vendor_log 1000 new_year_2024 last_run_A noon_2024 =
     Inr ([rec_B (), rec_C ()], last_run_C)"
  by (rule C3_boundary_scenario[OF paging_ABC normalize_wire_ABC])

text \<open>
  C4. Cursor invariant: when the loggings of an invocation, normalised, are in
  non-decreasing order of \<open>requestTime\<close> and none is before the watermark of the last run,
  the watermark of the new last run is not before the old one, and every id the new last
  run stores is the id of a logging of this invocation whose \<open>requestTime\<close> is the new
  watermark, or is an id the last run stored already, the watermark being unchanged.
\<close>

theorem C4_cursor_invariant:
  assumes run: "fetch_activity_logging client max_fetch first_fetch last_run now = Inr (kept, new_last_run)"
    and paged: "get_max_fetch_activity_logging client max_fetch (fetch_from_date last_run first_fetch)
             (strftime now DATE_FORMAT) = Inr (requests, fetched)"
    and norm: "remove_milliseconds_from_time_of_loggings fetched = Inr normalized"
    and srt: "sorted (map request_key normalized)"
    and ge: "\<forall>r\<in>set normalized. time_key (fetch_from_date last_run first_fetch) \<le> request_key r"
  shows "time_key (fetch_from_date last_run first_fetch)
           \<le> time_key (fetch_from_date new_last_run first_fetch) \<and>
         (\<forall>i\<in>last_fetched_of new_last_run.
            (\<exists>r\<in>set normalized. taskId r = i \<and>
                request_key r = time_key (fetch_from_date new_last_run first_fetch)) \<or>
            (i \<in> last_fetched_of last_run \<and>
             time_key (fetch_from_date new_last_run first_fetch) =
               time_key (fetch_from_date last_run first_fetch)))"
proof -
  let ?from = "fetch_from_date last_run first_fetch"
  from run paged norm obtain S where
    dedup: "remove_duplicated_activity_logging normalized last_run ?from = Inr (kept, S)"
    and new: "new_last_run = (if kept \<noteq> []
       then \<lparr>last_fetch_time = requestTime (last kept), last_fetched_loggings = Some S\<rparr>
       else last_run)"
    by (auto elim!: fetch_InrE)
  show ?thesis
  proof (cases "kept = []")
    case True
    with new show ?thesis by simp
  next
    case False
    from dedup srt False obtain k t' where
      bp: "boundary_pass normalized (time_key ?from) (last_fetched_of last_run) = (k, t', S)"
      and sets: "set kept = set k" "set kept \<subseteq> set normalized"
      and wf: "\<forall>r\<in>set normalized. well_formed r"
      and top: "\<forall>r\<in>set kept. request_key r \<le> request_key (last kept)"
      by (rule dedup_summary)
    from False sets have lastin: "last kept \<in> set normalized" by auto
    from new False have new': "new_last_run =
        \<lparr>last_fetch_time = requestTime (last kept), last_fetched_loggings = Some S\<rparr>"
      by simp
    from lastin wf have key_new: "time_key (fetch_from_date new_last_run first_fetch)
        = request_key (last kept)"
      unfolding new' by (intro from_date_of_new) auto
    from pass_bound[OF bp] have le: "time_key ?from \<le> t'"
      and up: "\<forall>r\<in>set normalized. request_key r \<le> t'" by auto
    have "\<exists>r\<in>set kept. request_key r = t'"
    proof (cases "time_key ?from < t'")
      case True
      from pass_advance_kept[OF bp True] sets show ?thesis by auto
    next
      case same: False
      with le have "t' = time_key ?from" by simp
      with ge up sets(2) have "\<forall>r\<in>set kept. request_key r = t'" by fastforce
      with False show ?thesis by (cases kept) auto
    qed
    with top up lastin have last_key: "request_key (last kept) = t'"
      by (metis order.antisym)
    have ids: "last_fetched_of new_last_run = S"
      unfolding new' by (simp add: last_fetched_of_def)
    have "\<forall>i\<in>S. (\<exists>r\<in>set normalized. taskId r = i \<and> request_key r = t') \<or>
        (i \<in> last_fetched_of last_run \<and> t' = time_key ?from)"
      using pass_ids_origin[OF bp srt ge] by blast
    with le show ?thesis
      unfolding ids key_new last_key by simp
  qed
qed

theorem C4_witness:
  "time_key (fetch_from_date last_run_A new_year_2024)
     \<le> time_key (fetch_from_date last_run_C new_year_2024) \<and>
   (\<exists>r\<in>set [rec_A (), rec_B (), rec_C ()]. taskId r = Some ''C'' \<and>
      request_key r = time_key (fetch_from_date last_run_C new_year_2024))"
proof -
  have paged: "get_max_fetch_activity_logging vendor_log 1000
      (fetch_from_date last_run_A new_year_2024) (strftime noon_2024 DATE_FORMAT) =
      Inr ([(0, 1000), (3, 997)], wire_ABC)"
    by (simp add: from_dates_eval paging_ABC)
  have ge: "\<forall>r\<in>set [rec_A (), rec_B (), rec_C ()].
      time_key (fetch_from_date last_run_A new_year_2024) \<le> request_key r"
    by (simp add: from_dates_eval keys_eval request_keys_eval)
  from C4_cursor_invariant[OF fetch_ABC paged normalize_wire_ABC sorted_ABC ge]
  show ?thesis
    by (simp add: last_fetched_of_def last_run_C_def last_run_A_def)
qed

text \<open>
  C5. Cap respected: for a positive \<open>max_fetch\<close> and a vendor whose every page holds at
  most the requested limit (for the positive limits, the only ones the loop requests), the
  loggings \<open>fetch_activity_logging\<close> returns number at most \<open>max_fetch\<close>.
\<close>

theorem C5_cap_respected:
  assumes "0 < max_fetch"
    and "\<forall>offset limit res. 0 < limit \<longrightarrow>
           client (fetch_from_date last_run first_fetch) (strftime now DATE_FORMAT) offset limit = Inr res
           \<longrightarrow> int (length res) \<le> limit"
    and "fetch_activity_logging client max_fetch first_fetch last_run now =
           Inr (activity_loggings, new_last_run)"
  shows "int (length activity_loggings) \<le> max_fetch"
proof -
  let ?from = "fetch_from_date last_run first_fetch"
  let ?to = "strftime now DATE_FORMAT"
  from assms(3) obtain requests fetched normalized last_fetched where
    paged0: "get_max_fetch_activity_logging client max_fetch ?from ?to = Inr (requests, fetched)"
    and norm: "remove_milliseconds_from_time_of_loggings fetched = Inr normalized"
    and dedup0: "remove_duplicated_activity_logging normalized last_run ?from =
                  Inr (activity_loggings, last_fetched)"
    by (rule fetch_InrE)
  from paged0 have
    paged: "get_max_fetch_loop (client ?from ?to) [] [] 0 max_fetch = Inr (requests, fetched)"
    by (simp add: get_max_fetch_activity_logging_def)
  from dedup0 obtain ttc' where
    dedup: "remove_duplicated_loop normalized normalized ?from (last_fetched_of last_run) =
                  Inr (activity_loggings, ttc', last_fetched)"
    by (rule remove_duplicated_InrE)
  from loop_cap[OF paged assms(2)] assms(1) have "int (length fetched) \<le> max_fetch"
    by simp
  moreover from remove_milliseconds_length[OF norm] have "length normalized = length fetched" .
  moreover from loop_length[OF dedup] have "length activity_loggings \<le> length normalized" .
  ultimately show ?thesis by simp
qed

theorem C5_witness:
  "fetch_activity_logging vendor_log 2 new_year_2024 first_run noon_2024 =
     Inr ([rec_A (), rec_B ()], last_run_AB) \<and>
   int (length [rec_A (), rec_B ()]) \<le> 2"
proof
  show run: "fetch_activity_logging vendor_log 2 new_year_2024 first_run noon_2024 =
     Inr ([rec_A (), rec_B ()], last_run_AB)"
    by (rule fetch_AB)
  have "\<forall>offset limit res. 0 < limit \<longrightarrow>
      vendor_log (fetch_from_date first_run new_year_2024) (strftime noon_2024 DATE_FORMAT)
        offset limit = Inr res \<longrightarrow> int (length res) \<le> limit"
    by (auto simp: vendor_log_def)
  from C5_cap_respected[OF _ this run] show "int (length [rec_A (), rec_B ()]) \<le> 2"
    by simp
qed

text \<open>
  C6. Pagination discipline: the log of the calls \<open>get_max_fetch_activity_logging\<close>
  issued follows \<open>paging_discipline\<close> from an accumulated count of 0 (each call at the
  offset equal to the count so far, with limit \<open>min (remaining, 1000)\<close>, the calls ending
  exactly at the first empty page or once the count has reached the cap), and the result
  is the pages of these calls in order. With a cap of 1500 and pages of 1000 loggings at
  offset 0 and 500 at offset 1000, exactly the two calls (0, 1000) and (1000, 500) are
  made and 1500 loggings are returned.
\<close>

theorem C6_paging_discipline:
  "(get_max_fetch_activity_logging client max_fetch from_date to_date = Inr (requests, fetched) \<longrightarrow>
      paging_discipline (client from_date to_date) max_fetch 0 requests \<and>
      fetched = pages_of (client from_date to_date) requests) \<and>
   (client from_date to_date 0 1000 = Inr page1 \<and> length page1 = 1000 \<and>
    client from_date to_date 1000 500 = Inr page2 \<and> length page2 = 500 \<longrightarrow>
      get_max_fetch_activity_logging client 1500 from_date to_date =
        Inr ([(0, 1000), (1000, 500)], page1 @ page2) \<and>
      length (page1 @ page2) = 1500)"
proof (intro conjI impI)
  assume run: "get_max_fetch_activity_logging client max_fetch from_date to_date = Inr (requests, fetched)"
  then have "get_max_fetch_loop (client from_date to_date) [] [] 0 max_fetch = Inr (requests, fetched)"
    by (simp add: get_max_fetch_activity_logging_def)
  from loop_discipline[OF this]
  show "paging_discipline (client from_date to_date) max_fetch 0 requests"
    and "fetched = pages_of (client from_date to_date) requests"
    by auto
next
  assume pages: "client from_date to_date 0 1000 = Inr page1 \<and> length page1 = 1000 \<and>
    client from_date to_date 1000 500 = Inr page2 \<and> length page2 = 500"
  then have p1: "client from_date to_date 0 (page_limit 1500) = Inr page1" and n1: "page1 \<noteq> []"
    and p2: "client from_date to_date 1000 (page_limit 500) = Inr page2" and n2: "page2 \<noteq> []"
    and l1: "int (length page1) = 1000" and l2: "int (length page2) = 500"
    by (auto simp: page_limit_def)
  have "get_max_fetch_loop (client from_date to_date) [] [] 0 1500 =
        get_max_fetch_loop (client from_date to_date) [(0, 1000)] page1 1000 500"
    using loop_continue[of 1500 "client from_date to_date" 0 page1 "[]" "[]"] p1 n1 l1
    by (simp add: page_limit_def)
  also have "\<dots> = get_max_fetch_loop (client from_date to_date) [(0, 1000), (1000, 500)]
                     (page1 @ page2) 1500 0"
    using loop_continue[of 500 "client from_date to_date" 1000 page2 "[(0, 1000)]" page1] p2 n2 l2
    by (simp add: page_limit_def)
  also have "\<dots> = Inr ([(0, 1000), (1000, 500)], page1 @ page2)"
    by (simp add: loop_stop)
  finally show "get_max_fetch_activity_logging client 1500 from_date to_date =
        Inr ([(0, 1000), (1000, 500)], page1 @ page2)"
    by (simp add: get_max_fetch_activity_logging_def)
  from pages show "length (page1 @ page2) = 1500" by simp
qed

theorem C6_witness:
  "get_max_fetch_activity_logging vendor_2500 1500 ''2024-01-01T00:00:00Z'' ''2024-01-01T12:00:00Z'' =
     Inr ([(0, 1000), (1000, 500)], replicate 1000 (wire ''A'' ''2024-01-01T00:00:00.000Z'') @ replicate 500 (wire ''A'' ''2024-01-01T00:00:00.000Z'')) \<and>
   paging_discipline (vendor_2500 ''2024-01-01T00:00:00Z'' ''2024-01-01T12:00:00Z'') 1500 0
     [(0, 1000), (1000, 500)] \<and>
   replicate 1000 (wire ''A'' ''2024-01-01T00:00:00.000Z'') @ replicate 500 (wire ''A'' ''2024-01-01T00:00:00.000Z'') =
     pages_of (vendor_2500 ''2024-01-01T00:00:00Z'' ''2024-01-01T12:00:00Z'') [(0, 1000), (1000, 500)]"
proof -
  let ?f = "''2024-01-01T00:00:00Z''" and ?t = "''2024-01-01T12:00:00Z''"
  have run: "get_max_fetch_activity_logging vendor_2500 1500 ?f ?t =
     Inr ([(0, 1000), (1000, 500)], replicate 1000 (wire ''A'' ''2024-01-01T00:00:00.000Z'') @ replicate 500 (wire ''A'' ''2024-01-01T00:00:00.000Z''))"
    using C6_paging_discipline[of vendor_2500 1500 ?f ?t "[]" "[]" "replicate 1000 (wire ''A'' ''2024-01-01T00:00:00.000Z'')"
        "replicate 500 (wire ''A'' ''2024-01-01T00:00:00.000Z'')"]
    by (simp add: vendor_2500_def)
  with C6_paging_discipline[of vendor_2500 1500 ?f ?t "[(0, 1000), (1000, 500)]"
        "replicate 1000 (wire ''A'' ''2024-01-01T00:00:00.000Z'') @ replicate 500 (wire ''A'' ''2024-01-01T00:00:00.000Z'')" "[]" "[]"]
  show ?thesis by blast
qed

text \<open>
  C7. Empty fetch leaves the cursor unchanged: when the vendor answers the first call of
  an invocation (offset 0, limit \<open>page_limit max_fetch\<close>, the smaller of the cap and 1000) with an empty page,
  \<open>fetch_activity_logging\<close> returns no loggings and the last-run object it was given.
\<close>

theorem C7_empty_fetch_keeps_last_run:
  assumes "0 < max_fetch"
    and "client (fetch_from_date last_run first_fetch) (strftime now DATE_FORMAT) 0
           (page_limit max_fetch) = Inr []"
  shows "fetch_activity_logging client max_fetch first_fetch last_run now = Inr ([], last_run)"
  using assms
  by (simp add: fetch_activity_logging_def get_max_fetch_activity_logging_def
      loop_break remove_duplicated_nothing)

theorem C7_witness:
  "fetch_activity_logging empty_client 5 new_year_2024 last_run_A noon_2024 = Inr ([], last_run_A)"
  using C7_empty_fetch_keeps_last_run [of 5 empty_client last_run_A new_year_2024 noon_2024]
  by (simp add: empty_client_def)

text \<open>
  C8. Sub-second truncation: when the normalisation returns, every logging is \<open>truncated\<close>
  (its \<open>requestTime\<close> parsed with the milliseconds format and rendered in whole seconds,
  the seconds unchanged whatever the fraction); the loggings \<open>fetch_activity_logging\<close>
  returns are among the normalised forms of the fetched ones, so the boundary pass only
  ever sees normalised times; and a logging with \<open>requestTime\<close>
  2024-01-01T00:00:00.999000Z is normalised to 2024-01-01T00:00:00Z.
\<close>

theorem C8_truncation:
  "(remove_milliseconds_from_time_of_loggings al = Inr al' \<longrightarrow> list_all2 truncated al al') \<and>
   (fetch_activity_logging client max_fetch first_fetch last_run now = Inr (kept, new_last_run) \<longrightarrow>
      (\<exists>requests fetched normalized.
         get_max_fetch_activity_logging client max_fetch (fetch_from_date last_run first_fetch)
           (strftime now DATE_FORMAT) = Inr (requests, fetched) \<and>
         list_all2 truncated fetched normalized \<and> set kept \<subseteq> set normalized)) \<and>
   remove_milliseconds_from_time_of_loggings
     [\<lparr>taskId = i, requestTime = Some ''2024-01-01T00:00:00.999000Z'', payload = p\<rparr>] =
     Inr [\<lparr>taskId = i, requestTime = Some ''2024-01-01T00:00:00Z'', payload = p\<rparr>]"
proof (intro conjI impI)
  assume "remove_milliseconds_from_time_of_loggings al = Inr al'"
  then show "list_all2 truncated al al'" by (rule remove_milliseconds_truncated)
next
  assume "fetch_activity_logging client max_fetch first_fetch last_run now = Inr (kept, new_last_run)"
  then obtain requests fetched normalized last_fetched where
    paged: "get_max_fetch_activity_logging client max_fetch (fetch_from_date last_run first_fetch)
       (strftime now DATE_FORMAT) = Inr (requests, fetched)"
    and norm: "remove_milliseconds_from_time_of_loggings fetched = Inr normalized"
    and dedup: "remove_duplicated_activity_logging normalized last_run
       (fetch_from_date last_run first_fetch) = Inr (kept, last_fetched)"
    by (rule fetch_InrE)
  from dedup obtain ttc' where "remove_duplicated_loop normalized normalized
      (fetch_from_date last_run first_fetch) (last_fetched_of last_run) = Inr (kept, ttc', last_fetched)"
    by (rule remove_duplicated_InrE)
  then have "set kept \<subseteq> set normalized" by (rule loop_subset)
  with paged remove_milliseconds_truncated[OF norm]
  show "\<exists>requests fetched normalized.
         get_max_fetch_activity_logging client max_fetch (fetch_from_date last_run first_fetch)
           (strftime now DATE_FORMAT) = Inr (requests, fetched) \<and>
         list_all2 truncated fetched normalized \<and> set kept \<subseteq> set normalized"
    by blast
next
  show "remove_milliseconds_from_time_of_loggings
     [\<lparr>taskId = i, requestTime = Some ''2024-01-01T00:00:00.999000Z'', payload = p\<rparr>] =
     Inr [\<lparr>taskId = i, requestTime = Some ''2024-01-01T00:00:00Z'', payload = p\<rparr>]"
    by (simp add: parse_999 strftime_eval)
qed

theorem C8_witness:
  "remove_milliseconds_from_time_of_loggings wire_ABC = Inr [rec_A (), rec_B (), rec_C ()] \<and>
   list_all2 truncated wire_ABC [rec_A (), rec_B (), rec_C ()] \<and>
   fetch_activity_logging vendor_log 1000 new_year_2024 last_run_A noon_2024 =
     Inr ([rec_B (), rec_C ()], last_run_C) \<and>
   (\<exists>requests fetched normalized.
      get_max_fetch_activity_logging vendor_log 1000 (fetch_from_date last_run_A new_year_2024)
        (strftime noon_2024 DATE_FORMAT) = Inr (requests, fetched) \<and>
      list_all2 truncated fetched normalized \<and> set [rec_B (), rec_C ()] \<subseteq> set normalized)"
proof -
  note c8 = C8_truncation[of wire_ABC "[rec_A (), rec_B (), rec_C ()]" vendor_log 1000 new_year_2024
      last_run_A noon_2024 "[rec_B (), rec_C ()]" last_run_C]
  have 1: "list_all2 truncated wire_ABC [rec_A (), rec_B (), rec_C ()]"
    using c8[THEN conjunct1] normalize_wire_ABC by (rule mp)
  have 2: "\<exists>requests fetched normalized.
      get_max_fetch_activity_logging vendor_log 1000 (fetch_from_date last_run_A new_year_2024)
        (strftime noon_2024 DATE_FORMAT) = Inr (requests, fetched) \<and>
      list_all2 truncated fetched normalized \<and> set [rec_B (), rec_C ()] \<subseteq> set normalized"
    using c8[THEN conjunct2, THEN conjunct1] fetch_ABC[of new_year_2024 noon_2024] by (rule mp)
  from normalize_wire_ABC 1 fetch_ABC[of new_year_2024 noon_2024] 2 show ?thesis
    by (intro conjI)
qed

text \<open>
  C9, as amended. A cap \<open>max_fetch \<le> 0\<close> is not rejected: the loop guard
  \<^verbatim>\<open>while logging_to_fetch > 0\<close> fails at once, so no request is issued to the
  client, and the invocation succeeds with no loggings and the last-run object unchanged.
  The claim's first half (no page request) holds; its second half (an error is reported)
  fails, as \<open>C9_counterexample\<close> shows with a client every call of which would raise.
\<close>

theorem C9_nonpositive_cap_no_request_no_error:
  assumes "max_fetch \<le> 0"
  shows "get_max_fetch_activity_logging client max_fetch from_date to_date = Inr ([], []) \<and>
         fetch_activity_logging client max_fetch first_fetch last_run now = Inr ([], last_run)"
  using assms
  by (simp add: fetch_activity_logging_def get_max_fetch_activity_logging_def
      loop_stop remove_duplicated_nothing)

theorem C9_witness:
  "get_max_fetch_activity_logging failing_client (- 3) ''2024-01-01T00:00:00Z''
     ''2024-01-01T12:00:00Z'' = Inr ([], []) \<and>
   fetch_activity_logging failing_client (- 3) new_year_2024 last_run_A noon_2024 =
     Inr ([], last_run_A)"
  using C9_nonpositive_cap_no_request_no_error [of "- 3" failing_client
      "''2024-01-01T00:00:00Z''" "''2024-01-01T12:00:00Z''" new_year_2024 last_run_A noon_2024]
  by simp

theorem C9_counterexample:
  "fetch_activity_logging failing_client 0 new_year_2024 last_run_A noon_2024 =
     Inr ([], last_run_A)"
  by (simp add: fetch_activity_logging_def get_max_fetch_activity_logging_def
      loop_stop remove_duplicated_nothing)

text \<open>
  C10. Normalisation is partial in the timestamp format: it returns only when every
  \<open>requestTime\<close> carries an explicit sub-second component; a string in whole-second
  form (one that parses with \<open>DATE_FORMAT\<close>) carries none; on a string without one the
  parse with the milliseconds format raises \<open>ValueError\<close>; and when a fetched logging has
  such a \<open>requestTime\<close>, the normalisation raises and \<open>fetch_activity_logging\<close> raises
  the same exception, before the boundary pass.
\<close>

theorem C10_normalization_partial:
  "(remove_milliseconds_from_time_of_loggings al = Inr al' \<longrightarrow>
      (\<forall>r\<in>set al. \<exists>s. requestTime r = Some s \<and> has_fraction s)) \<and>
   (strptime s DATE_FORMAT = Inr t \<longrightarrow> \<not> has_fraction s) \<and>
   (\<not> has_fraction s \<longrightarrow> strptime s date_format_with_milliseconds = Inl ValueError) \<and>
   (get_max_fetch_activity_logging client max_fetch (fetch_from_date last_run first_fetch)
      (strftime now DATE_FORMAT) = Inr (requests, fetched) \<and>
    r \<in> set fetched \<and> requestTime r = Some s \<and> \<not> has_fraction s \<longrightarrow>
      (\<exists>e. remove_milliseconds_from_time_of_loggings fetched = Inl e \<and>
           fetch_activity_logging client max_fetch first_fetch last_run now = Inl e))"
proof (intro conjI impI ballI)
  fix x
  assume run: "remove_milliseconds_from_time_of_loggings al = Inr al'" and x: "x \<in> set al"
  from remove_milliseconds_truncated[OF run] x obtain x' where "truncated x x'"
    by (auto simp: list_all2_conv_all_nth in_set_conv_nth)
  then obtain s' t' where "requestTime x = Some s'"
    "strptime s' date_format_with_milliseconds = Inr t'"
    by (auto simp: truncated_def split: option.splits sum.splits)
  with milliseconds_has_fraction show "\<exists>s. requestTime x = Some s \<and> has_fraction s" by blast
next
  assume "strptime s DATE_FORMAT = Inr t"
  then show "\<not> has_fraction s" by (rule whole_second_no_fraction)
next
  assume "\<not> has_fraction s"
  then show "strptime s date_format_with_milliseconds = Inl ValueError" by (rule no_fraction_raises)
next
  assume a: "get_max_fetch_activity_logging client max_fetch (fetch_from_date last_run first_fetch)
      (strftime now DATE_FORMAT) = Inr (requests, fetched) \<and>
    r \<in> set fetched \<and> requestTime r = Some s \<and> \<not> has_fraction s"
  then have "strptime s date_format_with_milliseconds = Inl ValueError"
    by (intro no_fraction_raises) simp
  with a obtain e where e: "remove_milliseconds_from_time_of_loggings fetched = Inl e"
    by (blast dest: remove_milliseconds_raises)
  with a have "fetch_activity_logging client max_fetch first_fetch last_run now = Inl e"
    by (simp add: fetch_activity_logging_def)
  with e show "\<exists>e. remove_milliseconds_from_time_of_loggings fetched = Inl e \<and>
           fetch_activity_logging client max_fetch first_fetch last_run now = Inl e" by blast
qed

theorem C10_witness:
  "remove_milliseconds_from_time_of_loggings [rec_A (), rec_B (), rec_C ()] = Inl ValueError \<and>
   fetch_activity_logging vendor_whole_seconds 1000 new_year_2024 last_run_A noon_2024 =
     Inl ValueError \<and>
   \<not> has_fraction ''2024-01-01T00:00:00Z'' \<and>
   has_fraction ''2024-01-01T00:00:00.999000Z''"
proof -
  note c10 = C10_normalization_partial[of wire_ABC "[rec_A (), rec_B (), rec_C ()]"
      "''2024-01-01T00:00:00Z''"
      "\<lparr>year = 2024, month = 1, day = 1, hour = 0, minute = 0, second = 0, microsecond = 0\<rparr>"
      vendor_whole_seconds 1000 last_run_A new_year_2024
      noon_2024 "[(0, 1000), (3, 997)]" "[rec_A (), rec_B (), rec_C ()]" "rec_A ()"]
  have nf: "\<not> has_fraction ''2024-01-01T00:00:00Z''"
    using c10[THEN conjunct2, THEN conjunct1] parse_00 by (rule mp)
  have "\<forall>r\<in>set wire_ABC. \<exists>s. requestTime r = Some s \<and> has_fraction s"
    using c10[THEN conjunct1] normalize_wire_ABC by (rule mp)
  then have "\<exists>s. requestTime (wire ''B'' ''2024-01-01T00:00:00.999000Z'') = Some s \<and> has_fraction s"
    by (simp add: wire_ABC_def)
  then have hf: "has_fraction ''2024-01-01T00:00:00.999000Z''"
    by (simp add: wire_def)
  have first: "strptime ''2024-01-01T00:00:00Z'' date_format_with_milliseconds = Inl ValueError"
    using c10[THEN conjunct2, THEN conjunct2, THEN conjunct1] nf by (rule mp)
  then have norm: "remove_milliseconds_from_time_of_loggings [rec_A (), rec_B (), rec_C ()] =
      Inl ValueError"
    by (simp add: rec_A_def)
  have pre: "get_max_fetch_activity_logging vendor_whole_seconds 1000
      (fetch_from_date last_run_A new_year_2024) (strftime noon_2024 DATE_FORMAT) =
      Inr ([(0, 1000), (3, 997)], [rec_A (), rec_B (), rec_C ()]) \<and>
    rec_A () \<in> set [rec_A (), rec_B (), rec_C ()] \<and>
    requestTime (rec_A ()) = Some ''2024-01-01T00:00:00Z'' \<and>
    \<not> has_fraction ''2024-01-01T00:00:00Z''"
    using nf by (simp add: paging_whole_seconds rec_A_def)
  have "\<exists>e. remove_milliseconds_from_time_of_loggings [rec_A (), rec_B (), rec_C ()] = Inl e \<and>
      fetch_activity_logging vendor_whole_seconds 1000 new_year_2024 last_run_A noon_2024 = Inl e"
    using c10[THEN conjunct2, THEN conjunct2, THEN conjunct2] pre by (rule mp)
  then obtain e where
    "remove_milliseconds_from_time_of_loggings [rec_A (), rec_B (), rec_C ()] = Inl e"
    "fetch_activity_logging vendor_whole_seconds 1000 new_year_2024 last_run_A noon_2024 = Inl e"
    by blast
  with norm have "fetch_activity_logging vendor_whole_seconds 1000 new_year_2024 last_run_A
      noon_2024 = Inl ValueError" by simp
  with norm nf hf show ?thesis by (intro conjI)
qed

end
